theory Spec2Isabelle
  imports Main "HOL-Library.Sublist" "HOL-Library.AList"
begin

section \<open>Strings of the platform\<close>

text \<open>
  A string of the program is a sequence of UTF-16 code units. The viewer and the top view
  are modelled on strings of the units below 256 (type \<open>char\<close>, read as Latin-1). On
  these the platform's \<^verbatim>\<open>toLowerCase\<close> works unit by unit: \<^verbatim>\<open>A\<close>..\<^verbatim>\<open>Z\<close>
  (65..90) and the accented capitals 192..222 (without the multiplication sign 215) move
  up by 32, every other unit stays. The function on all UTF-16 strings follows below
  (\<open>toLowerCaseUTF16\<close>), and \<open>toLowerCase\<close> is shown to be its restriction.
\<close>

definition toLowerUnit :: "char \<Rightarrow> char" where
  "toLowerUnit c =
     (let n = (of_char c :: nat)
      in if (65 \<le> n \<and> n \<le> 90) \<or> (192 \<le> n \<and> n \<le> 222 \<and> n \<noteq> 215)
         then char_of (n + 32) else c)"

definition toLowerCase :: "string \<Rightarrow> string" where
  "toLowerCase s = map toLowerUnit s"

text \<open>
  \<^verbatim>\<open>s.includes(t)\<close>: \<open>t\<close> occurs in \<open>s\<close> as a contiguous run of code units,
  searched from position 0 on.
\<close>

definition startsWith :: "'a list \<Rightarrow> 'a list \<Rightarrow> bool" where
  "startsWith s t = (take (length t) s = t)"

fun includes_str :: "'a list \<Rightarrow> 'a list \<Rightarrow> bool" where
  "includes_str [] t = (t = [])"
| "includes_str (c # s) t = (startsWith (c # s) t \<or> includes_str s t)"

section \<open>The viewer: filtering\<close>

text \<open>
  \<^verbatim>\<open>filterItems\<close> of the viewer closes over the search string; here it is the first
  argument. A string is falsy exactly when it is empty.
\<close>

definition filterItems :: "string \<Rightarrow> string list \<Rightarrow> string list" where
  "filterItems searchQuery items =
     (if searchQuery = [] then items
      else filter (\<lambda>item. includes_str (toLowerCase item) (toLowerCase searchQuery)) items)"

section \<open>Lower-casing and filtering on all UTF-16 strings\<close>

text \<open>
  Here a string is the list of its code units as numbers (below 65536), and
  \<open>codeUnits\<close> gives the units of a string of the type above.
\<close>

definition codeUnits :: "string \<Rightarrow> nat list" where
  "codeUnits s = map of_char s"

text \<open>
  \<^verbatim>\<open>String.prototype.toLowerCase\<close> reads the string as code points
  (\<^verbatim>\<open>StringToCodePoints\<close>: a leading surrogate followed by a trailing one is one code
  point, every other unit is its own), maps them by the Unicode default case conversion
  and writes the result back as code units (\<^verbatim>\<open>CodePointsToString\<close>).
\<close>

definition isLeadingSurrogate :: "nat \<Rightarrow> bool" where
  "isLeadingSurrogate n = (0xD800 \<le> n \<and> n \<le> 0xDBFF)"

definition isTrailingSurrogate :: "nat \<Rightarrow> bool" where
  "isTrailingSurrogate n = (0xDC00 \<le> n \<and> n \<le> 0xDFFF)"

fun stringToCodePoints :: "nat list \<Rightarrow> nat list" where
  "stringToCodePoints (a # b # s) =
     (if isLeadingSurrogate a \<and> isTrailingSurrogate b
      then (0x10000 + (a - 0xD800) * 0x400 + (b - 0xDC00)) # stringToCodePoints s
      else a # stringToCodePoints (b # s))"
| "stringToCodePoints s = s"

definition utf16EncodeCodePoint :: "nat \<Rightarrow> nat list" where
  "utf16EncodeCodePoint cp =
     (if cp < 0x10000 then [cp]
      else [0xD800 + (cp - 0x10000) div 0x400, 0xDC00 + (cp - 0x10000) mod 0x400])"

definition codePointsToString :: "nat list \<Rightarrow> nat list" where
  "codePointsToString cps = concat (map utf16EncodeCodePoint cps)"

text \<open>
  The Unicode Character Database is a table of the platform: the simple lowercase mapping
  of a code point, and whether it is Cased and Case_Ignorable. It is a parameter here. Its
  rows that the results below rest on are written out: the lowercase mapping of the code
  points below 256, and Cased for those below 128 (the letters).
\<close>

record ucd =
  lowercaseMapping :: "nat \<Rightarrow> nat"
  isCased :: "nat \<Rightarrow> bool"
  isCaseIgnorable :: "nat \<Rightarrow> bool"

definition latin1Lower :: "nat \<Rightarrow> nat" where
  "latin1Lower cp =
     (if (65 \<le> cp \<and> cp \<le> 90) \<or> (192 \<le> cp \<and> cp \<le> 222 \<and> cp \<noteq> 215) then cp + 32 else cp)"

definition lowercaseOf :: "ucd \<Rightarrow> nat \<Rightarrow> nat" where
  "lowercaseOf u cp = (if cp < 256 then latin1Lower cp else lowercaseMapping u cp)"

definition casedOf :: "ucd \<Rightarrow> nat \<Rightarrow> bool" where
  "casedOf u cp =
     (if cp < 128 then (65 \<le> cp \<and> cp \<le> 90) \<or> (97 \<le> cp \<and> cp \<le> 122) else isCased u cp)"

text \<open>
  The two mappings of the default case conversion that are not simple ones and depend on
  no language: U+0130 becomes U+0069 U+0307, and the capital sigma U+03A3 becomes the final
  sigma U+03C2 instead of U+03C3 under the condition Final_Sigma: it is preceded by a cased
  letter and then any number of case-ignorable code points, and it is not followed by any
  number of case-ignorable code points and then a cased letter. \<open>reachesCased\<close> reads
  the code points on one side, starting next to the sigma.
\<close>

fun reachesCased :: "ucd \<Rightarrow> nat list \<Rightarrow> bool" where
  "reachesCased u [] = False"
| "reachesCased u (c # cs) = (casedOf u c \<or> (isCaseIgnorable u c \<and> reachesCased u cs))"

definition finalSigma :: "ucd \<Rightarrow> nat list \<Rightarrow> nat list \<Rightarrow> bool" where
  "finalSigma u before after = (reachesCased u before \<and> \<not> reachesCased u after)"

text \<open>\<open>before\<close> holds the code points already passed, the nearest first.\<close>

fun lowercaseText :: "ucd \<Rightarrow> nat list \<Rightarrow> nat list \<Rightarrow> nat list" where
  "lowercaseText u before [] = []"
| "lowercaseText u before (c # after) =
     (if c = 0x130 then [0x69, 0x307]
      else if c = 0x3A3 then (if finalSigma u before after then [0x3C2] else [0x3C3])
      else [lowercaseOf u c])
     @ lowercaseText u (c # before) after"

definition toLowerCaseUTF16 :: "ucd \<Rightarrow> nat list \<Rightarrow> nat list" where
  "toLowerCaseUTF16 u s = codePointsToString (lowercaseText u [] (stringToCodePoints s))"

text \<open>\<^verbatim>\<open>filterItems\<close> on these strings.\<close>

definition filterItemsUTF16 :: "ucd \<Rightarrow> nat list \<Rightarrow> nat list list \<Rightarrow> nat list list" where
  "filterItemsUTF16 u searchQuery items =
     (if searchQuery = [] then items
      else filter (\<lambda>item. includes_str (toLowerCaseUTF16 u item) (toLowerCaseUTF16 u searchQuery))
             items)"

text \<open>
  The specification's words, for comparison, stated without the lower-casing: an item
  contains the search string case-insensitively when, at some position of the item, the
  next code units are those of the search string up to the case of letters. Two units
  are the same letter up to case when they are equal or one is a capital letter and the
  other its small letter, 32 above it (the letters below 256; a unit from 256 on is the
  same letter as itself only).
\<close>

definition sameLetter :: "nat \<Rightarrow> nat \<Rightarrow> bool" where
  "sameLetter a b =
     (a = b \<or>
      (((65 \<le> a \<and> a \<le> 90) \<or> (192 \<le> a \<and> a \<le> 222 \<and> a \<noteq> 215)) \<and> b = a + 32) \<or>
      (((65 \<le> b \<and> b \<le> 90) \<or> (192 \<le> b \<and> b \<le> 222 \<and> b \<noteq> 215)) \<and> a = b + 32))"

definition occursIgnoringCase :: "nat list \<Rightarrow> nat list \<Rightarrow> nat \<Rightarrow> bool" where
  "occursIgnoringCase item q i =
     (i + length q \<le> length item \<and> list_all2 sameLetter (take (length q) (drop i item)) q)"

definition containsIgnoringCase :: "nat list \<Rightarrow> nat list \<Rightarrow> bool" where
  "containsIgnoringCase item q = list_ex (occursIgnoringCase item q) [0..<Suc (length item)]"

section \<open>The viewer: data and checked state\<close>

text \<open>
  \<^verbatim>\<open>interface ChecklistData\<close>. The section map is an object: an association list in
  the order of its keys, read by key (\<open>map_of\<close>). The field \<^verbatim>\<open>id\<close> is \<open>id'\<close>
  here.
\<close>

record ChecklistData =
  id' :: string
  title :: string
  equipment :: string
  industry :: string
  frequency :: string
  estimatedTime :: string
  version :: string
  lastUpdated :: string
  sections :: "(string \<times> string list) list"

text \<open>
  The text of an array index inside a template literal: the decimal digits of a natural
  number, without leading zeros (the form of every integer below \<^verbatim>\<open>1e21\<close>, which
  no array index reaches).
\<close>

definition digitChar :: "nat \<Rightarrow> char" where
  "digitChar d = char_of (48 + d)"

fun indexToString :: "nat \<Rightarrow> string" where
  "indexToString n =
     (if n < 10 then [digitChar n] else indexToString (n div 10) @ [digitChar (n mod 10)])"

declare indexToString.simps [simp del]

text \<open>The key \<^verbatim>\<open>`${sectionName}-${itemIndex}`\<close> of both places that build it.\<close>

definition itemKey :: "string \<Rightarrow> nat \<Rightarrow> string" where
  "itemKey sectionName itemIndex = sectionName @ ''-'' @ indexToString itemIndex"

text \<open>
  \<^verbatim>\<open>checkedItems : Record<string, boolean>\<close>, initially \<^verbatim>\<open>{}\<close>. Reading a key
  that was never written gives \<^verbatim>\<open>undefined\<close> (\<open>None\<close>), which is falsy.
\<close>

type_synonym checked_state = "string \<rightharpoonup> bool"

definition truthy :: "bool option \<Rightarrow> bool" where
  "truthy v = (case v of None \<Rightarrow> False | Some b \<Rightarrow> b)"

definition handleItemCheck :: "string \<Rightarrow> nat \<Rightarrow> checked_state \<Rightarrow> checked_state" where
  "handleItemCheck sectionName itemIndex prev =
     (let key = itemKey sectionName itemIndex
      in prev(key \<mapsto> \<not> truthy (prev key)))"

text \<open>\<^verbatim>\<open>checkedItems[key] || false\<close>\<close>

definition isChecked :: "checked_state \<Rightarrow> string \<Rightarrow> bool" where
  "isChecked checkedItems key = (truthy (checkedItems key) \<or> False)"

section \<open>The viewer: rendering the sections\<close>

definition sectionOrder :: "string list" where
  "sectionOrder =
     [''Safety Precautions'',
      ''Required Tools and Equipment'',
      ''Pre-Maintenance Procedures'',
      ''Cleaning Procedures'',
      ''Mechanical Inspection'',
      ''Calibration'',
      ''Lubrication'',
      ''Quality Checks'',
      ''Documentation'',
      ''Final Checks'',
      ''Notes'']"

text \<open>
  What the render tree holds of one item row: the checkbox's id (the key), its checked
  flag, the label's text, and the arguments its change handler passes to
  \<^verbatim>\<open>handleItemCheck\<close>. Of one section: its header, its rows, and whether the
  "No items in this section" paragraph is there.
\<close>

record row_view =
  row_key :: string
  row_checked :: bool
  row_label :: string
  row_onCheck :: "string \<times> nat"

record section_view =
  sec_name :: string
  sec_rows :: "row_view list"
  sec_noItems :: bool

text \<open>\<^verbatim>\<open>checklist.sections[sectionName] || []\<close>\<close>

definition sectionItems :: "ChecklistData \<Rightarrow> string \<Rightarrow> string list" where
  "sectionItems checklist sectionName =
     (case map_of (sections checklist) sectionName of None \<Rightarrow> [] | Some items \<Rightarrow> items)"

text \<open>\<^verbatim>\<open>filteredItems.map((item, index) => ...)\<close>\<close>

definition renderRow :: "checked_state \<Rightarrow> string \<Rightarrow> nat \<times> string \<Rightarrow> row_view" where
  "renderRow checkedItems sectionName p =
     (case p of (index, item) \<Rightarrow>
        (let key = itemKey sectionName index
         in \<lparr>row_key = key, row_checked = isChecked checkedItems key, row_label = item,
             row_onCheck = (sectionName, index)\<rparr>))"

definition renderRows :: "checked_state \<Rightarrow> string \<Rightarrow> string list \<Rightarrow> row_view list" where
  "renderRows checkedItems sectionName filteredItems =
     map (renderRow checkedItems sectionName) (enumerate 0 filteredItems)"

text \<open>
  The body of \<^verbatim>\<open>sectionOrder.map((sectionName) => ...)\<close>; \<open>None\<close> is the
  \<^verbatim>\<open>return null\<close>.
\<close>

definition renderSection ::
  "ChecklistData \<Rightarrow> string \<Rightarrow> checked_state \<Rightarrow> string \<Rightarrow> section_view option" where
  "renderSection checklist searchQuery checkedItems sectionName =
     (let items = sectionItems checklist sectionName;
          filteredItems = filterItems searchQuery items
      in if filteredItems = [] \<and> searchQuery \<noteq> [] then None
         else Some \<lparr>sec_name = sectionName,
                     sec_rows = renderRows checkedItems sectionName filteredItems,
                     sec_noItems = (filteredItems = [] \<and> searchQuery = [])\<rparr>)"

definition renderSections ::
  "ChecklistData \<Rightarrow> string \<Rightarrow> checked_state \<Rightarrow> section_view option list" where
  "renderSections checklist searchQuery checkedItems =
     map (renderSection checklist searchQuery checkedItems) sectionOrder"

text \<open>The sections on display, top to bottom: the entries that are not null.\<close>

definition displayed ::
  "ChecklistData \<Rightarrow> string \<Rightarrow> checked_state \<Rightarrow> section_view list" where
  "displayed checklist searchQuery checkedItems =
     List.map_filter (\<lambda>x. x) (renderSections checklist searchQuery checkedItems)"

section \<open>The platform's JSON\<close>

text \<open>
  The values a checklist record is made of: strings, arrays and objects. An object is an
  association list in the order in which its keys are enumerated; an object of the
  program holds no key twice.
\<close>

datatype json = JString string | JArray "json list" | JObject "(string \<times> json) list"

fun wf_json :: "json \<Rightarrow> bool" where
  "wf_json (JString s) = True"
| "wf_json (JArray vs) = list_all wf_json vs"
| "wf_json (JObject kvs) = (distinct (map fst kvs) \<and> list_all (\<lambda>kv. wf_json (snd kv)) kvs)"

text \<open>
  \<^verbatim>\<open>QuoteJSONString\<close>: the quotation mark, the backslash and the control characters
  are escaped (backspace, tab, line feed, form feed and carriage return by their short
  forms, the other units below 32 as \<^verbatim>\<open>\u00XX\<close> in lower-case hexadecimal); every
  other unit stands for itself. 34 is the quotation mark, 92 the backslash.
\<close>

definition hexDigit :: "nat \<Rightarrow> char" where
  "hexDigit d = (if d < 10 then char_of (48 + d) else char_of (87 + d))"

definition escapeUnit :: "char \<Rightarrow> string" where
  "escapeUnit c =
     (let n = (of_char c :: nat)
      in if n = 8 then [CHR 0x5C, CHR ''b'']
         else if n = 9 then [CHR 0x5C, CHR ''t'']
         else if n = 10 then [CHR 0x5C, CHR ''n'']
         else if n = 12 then [CHR 0x5C, CHR ''f'']
         else if n = 13 then [CHR 0x5C, CHR ''r'']
         else if n = 34 then [CHR 0x5C, CHR 0x22]
         else if n = 92 then [CHR 0x5C, CHR 0x5C]
         else if n < 32 then
           [CHR 0x5C, CHR ''u'', CHR ''0'', CHR ''0'', hexDigit (n div 16), hexDigit (n mod 16)]
         else [c])"

definition quoteJSONString :: "string \<Rightarrow> string" where
  "quoteJSONString s = CHR 0x22 # concat (map escapeUnit s) @ [CHR 0x22]"

fun joinWith :: "'a list \<Rightarrow> 'a list list \<Rightarrow> 'a list" where
  "joinWith sep [] = []"
| "joinWith sep [x] = x"
| "joinWith sep (x # y # ys) = x @ sep @ joinWith sep (y # ys)"

text \<open>
  \<^verbatim>\<open>SerializeJSONProperty\<close> with a gap that is not empty: an empty array or object is
  \<^verbatim>\<open>[]\<close> or \<^verbatim>\<open>{}\<close>; otherwise every element or member stands on a line of its
  own, indented by one gap more than the line of the bracket, and a member is its quoted
  key, a colon, a space and its value.
\<close>

fun serialize :: "string \<Rightarrow> string \<Rightarrow> json \<Rightarrow> string" where
  "serialize gap indent (JString s) = quoteJSONString s"
| "serialize gap indent (JArray vs) =
     (if vs = [] then ''[]''
      else ''['' @ [CHR 0x0A] @ (indent @ gap) @
           joinWith ('','' @ [CHR 0x0A] @ (indent @ gap)) (map (serialize gap (indent @ gap)) vs) @
           [CHR 0x0A] @ indent @ '']'')"
| "serialize gap indent (JObject kvs) =
     (if kvs = [] then ''{}''
      else ''{'' @ [CHR 0x0A] @ (indent @ gap) @
           joinWith ('','' @ [CHR 0x0A] @ (indent @ gap))
             (map (\<lambda>kv. quoteJSONString (fst kv) @ '': '' @ serialize gap (indent @ gap) (snd kv)) kvs) @
           [CHR 0x0A] @ indent @ ''}'')"

text \<open>\<^verbatim>\<open>JSON.stringify(value, null, n)\<close> for a number \<open>n\<close> from 1 on: the gap is \<open>min 10 n\<close> spaces.\<close>

definition JSON_stringify :: "json \<Rightarrow> nat \<Rightarrow> string" where
  "JSON_stringify v n = serialize (replicate (min 10 n) CHR '' '') [] v"

text \<open>
  \<^verbatim>\<open>JSON.parse\<close> on texts of strings, arrays and objects (any other text is refused
  here): first the tokens, read unit by unit, then the value. Inside a string literal a
  backslash starts an escape, \<^verbatim>\<open>\uXXXX\<close> gives the unit of that number (of the
  model's units: below 256) and a raw control character is an error.
\<close>

datatype token = TLBrace | TRBrace | TLBracket | TRBracket | TColon | TComma | TString string

datatype lex_mode = Plain | InStr string | Esc string | Uni string "nat list"

definition isWhitespace :: "char \<Rightarrow> bool" where
  "isWhitespace c = (c = CHR 0x20 \<or> c = CHR 0x09 \<or> c = CHR 0x0A \<or> c = CHR 0x0D)"

definition hexValue :: "char \<Rightarrow> nat option" where
  "hexValue c =
     (let n = (of_char c :: nat)
      in if 48 \<le> n \<and> n \<le> 57 then Some (n - 48)
         else if 97 \<le> n \<and> n \<le> 102 then Some (n - 87)
         else if 65 \<le> n \<and> n \<le> 70 then Some (n - 55)
         else None)"

definition unescape :: "char \<Rightarrow> char option" where
  "unescape c =
     (if c = CHR 0x22 then Some (CHR 0x22)
      else if c = CHR 0x5C then Some (CHR 0x5C)
      else if c = CHR ''/'' then Some (CHR ''/'')
      else if c = CHR ''b'' then Some (CHR 0x08)
      else if c = CHR ''f'' then Some (CHR 0x0C)
      else if c = CHR ''n'' then Some (CHR 0x0A)
      else if c = CHR ''r'' then Some (CHR 0x0D)
      else if c = CHR ''t'' then Some (CHR 0x09)
      else None)"

definition punctuation :: "char \<Rightarrow> token option" where
  "punctuation c =
     (if c = CHR ''{'' then Some TLBrace
      else if c = CHR ''}'' then Some TRBrace
      else if c = CHR ''['' then Some TLBracket
      else if c = CHR '']'' then Some TRBracket
      else if c = CHR '':'' then Some TColon
      else if c = CHR '','' then Some TComma
      else None)"

fun lexer :: "lex_mode \<Rightarrow> string \<Rightarrow> token list option" where
  "lexer Plain [] = Some []"
| "lexer Plain (c # cs) =
     (if isWhitespace c then lexer Plain cs
      else if c = CHR 0x22 then lexer (InStr []) cs
      else (case punctuation c of
              None \<Rightarrow> None
            | Some t \<Rightarrow> map_option (Cons t) (lexer Plain cs)))"
| "lexer (InStr acc) [] = None"
| "lexer (InStr acc) (c # cs) =
     (if c = CHR 0x22 then map_option (Cons (TString acc)) (lexer Plain cs)
      else if c = CHR 0x5C then lexer (Esc acc) cs
      else if (of_char c :: nat) < 32 then None
      else lexer (InStr (acc @ [c])) cs)"
| "lexer (Esc acc) [] = None"
| "lexer (Esc acc) (c # cs) =
     (if c = CHR ''u'' then lexer (Uni acc []) cs
      else (case unescape c of
              None \<Rightarrow> None
            | Some d \<Rightarrow> lexer (InStr (acc @ [d])) cs))"
| "lexer (Uni acc ds) [] = None"
| "lexer (Uni acc ds) (c # cs) =
     (case hexValue c of
        None \<Rightarrow> None
      | Some d \<Rightarrow>
          if length ds < 3 then lexer (Uni acc (ds @ [d])) cs
          else (let n = foldl (\<lambda>a x. 16 * a + x) 0 (ds @ [d])
                in if n < 256 then lexer (InStr (acc @ [char_of n])) cs else None))"

text \<open>
  The value of a token list, with fuel (the number of tokens is enough). A key met again
  takes the new value at its old place, as a property that is set twice does.
\<close>

fun parse_value :: "nat \<Rightarrow> token list \<Rightarrow> (json \<times> token list) option"
  and parse_elements :: "nat \<Rightarrow> json list \<Rightarrow> token list \<Rightarrow> (json list \<times> token list) option"
  and parse_members ::
    "nat \<Rightarrow> (string \<times> json) list \<Rightarrow> token list \<Rightarrow> ((string \<times> json) list \<times> token list) option"
where
  "parse_value 0 ts = None"
| "parse_value (Suc n) ts =
     (case ts of
        TString s # r \<Rightarrow> Some (JString s, r)
      | TLBracket # TRBracket # r \<Rightarrow> Some (JArray [], r)
      | TLBracket # r \<Rightarrow>
          (case parse_value n r of
             None \<Rightarrow> None
           | Some (v, r') \<Rightarrow>
               (case parse_elements n [v] r' of
                  None \<Rightarrow> None
                | Some (vs, r'') \<Rightarrow> Some (JArray vs, r'')))
      | TLBrace # TRBrace # r \<Rightarrow> Some (JObject [], r)
      | TLBrace # TString k # TColon # r \<Rightarrow>
          (case parse_value n r of
             None \<Rightarrow> None
           | Some (v, r') \<Rightarrow>
               (case parse_members n [(k, v)] r' of
                  None \<Rightarrow> None
                | Some (kvs, r'') \<Rightarrow> Some (JObject kvs, r'')))
      | _ \<Rightarrow> None)"
| "parse_elements 0 acc ts = None"
| "parse_elements (Suc n) acc ts =
     (case ts of
        TRBracket # r \<Rightarrow> Some (acc, r)
      | TComma # r \<Rightarrow>
          (case parse_value n r of
             None \<Rightarrow> None
           | Some (v, r') \<Rightarrow> parse_elements n (acc @ [v]) r')
      | _ \<Rightarrow> None)"
| "parse_members 0 acc ts = None"
| "parse_members (Suc n) acc ts =
     (case ts of
        TRBrace # r \<Rightarrow> Some (acc, r)
      | TComma # TString k # TColon # r \<Rightarrow>
          (case parse_value n r of
             None \<Rightarrow> None
           | Some (v, r') \<Rightarrow> parse_members n (AList.update k v acc) r')
      | _ \<Rightarrow> None)"

definition JSON_parse :: "string \<Rightarrow> json option" where
  "JSON_parse text =
     (case lexer Plain text of
        None \<Rightarrow> None
      | Some ts \<Rightarrow>
          (case parse_value (length ts) ts of
             Some (v, []) \<Rightarrow> Some v
           | _ \<Rightarrow> None))"

text \<open>The tokens of a value's text (used to relate the two passes).\<close>

fun toks :: "json \<Rightarrow> token list" where
  "toks (JString s) = [TString s]"
| "toks (JArray vs) = TLBracket # joinWith [TComma] (map toks vs) @ [TRBracket]"
| "toks (JObject kvs) =
     TLBrace # joinWith [TComma] (map (\<lambda>kv. TString (fst kv) # TColon # toks (snd kv)) kvs) @ [TRBrace]"

section \<open>The top view\<close>

text \<open>
  The state of \<^verbatim>\<open>Index\<close>: its four \<^verbatim>\<open>useState\<close> cells. \<open>None\<close> stands for
  \<^verbatim>\<open>null\<close> and for \<^verbatim>\<open>undefined\<close>, both falsy.
\<close>

record index_state =
  selectedChecklistId :: string
  selectedChecklist :: "ChecklistData option"
  searchQuery :: string
  showChecklist :: bool

definition initialIndex :: index_state where
  "initialIndex =
     \<lparr>selectedChecklistId = [], selectedChecklist = None, searchQuery = [], showChecklist = False\<rparr>"

datatype toast_variant = Default | Destructive

record toast =
  toast_title :: string
  toast_description :: string
  variant :: toast_variant

datatype js_error = TypeError

text \<open>
  What one run of a handler does: the state after it, the notifications it raised, the
  texts it wrote to the clipboard, and the exception it ended with, if any.
\<close>

record handled =
  next_state :: index_state
  toasts :: "toast list"
  clipboard_writes :: "string list"
  thrown :: "js_error option"

definition selectWarning :: toast where
  "selectWarning =
     \<lparr>toast_title = ''Please select a checklist'',
      toast_description = ''Choose a checklist from the dropdown to generate.'',
      variant = Destructive\<rparr>"

text \<open>
  \<^verbatim>\<open>handleGenerateChecklist\<close>. The static dataset \<^verbatim>\<open>data.json\<close> is a parameter: an
  object from identifiers to records, read by key. A key that is missing reads as
  \<^verbatim>\<open>undefined\<close>; the two setters have run by then, and building the success
  notification reads \<^verbatim>\<open>checklist.title\<close> of it, which throws. (Names inherited from
  the object prototype are not modelled: they are keys of no dataset here.)
\<close>

definition handleGenerateChecklist ::
  "(string \<times> ChecklistData) list \<Rightarrow> index_state \<Rightarrow> handled" where
  "handleGenerateChecklist checklistData s =
     (if selectedChecklistId s = [] then
        \<lparr>next_state = s, toasts = [selectWarning], clipboard_writes = [], thrown = None\<rparr>
      else
        (let checklist = map_of checklistData (selectedChecklistId s);
             s' = s\<lparr>selectedChecklist := checklist, showChecklist := True\<rparr>
         in case checklist of
              None \<Rightarrow>
                \<lparr>next_state = s', toasts = [], clipboard_writes = [], thrown = Some TypeError\<rparr>
            | Some c \<Rightarrow>
                \<lparr>next_state = s',
                 toasts = [\<lparr>toast_title = ''Checklist generated!'',
                            toast_description = title c @ '' is ready for use.'',
                            variant = Default\<rparr>],
                 clipboard_writes = [], thrown = None\<rparr>))"

text \<open>
  The record as the object that \<^verbatim>\<open>JSON.stringify\<close> walks: its fields in the order of
  the interface, the section map as an object of arrays of strings.
\<close>

definition checklistJSON :: "ChecklistData \<Rightarrow> json" where
  "checklistJSON c =
     JObject
       [(''id'', JString (id' c)),
        (''title'', JString (title c)),
        (''equipment'', JString (equipment c)),
        (''industry'', JString (industry c)),
        (''frequency'', JString (frequency c)),
        (''estimatedTime'', JString (estimatedTime c)),
        (''version'', JString (version c)),
        (''lastUpdated'', JString (lastUpdated c)),
        (''sections'', JObject (map (\<lambda>kv. (fst kv, JArray (map JString (snd kv)))) (sections c)))]"

text \<open>\<^verbatim>\<open>handleCopyJSON\<close>\<close>

definition handleCopyJSON :: "index_state \<Rightarrow> handled" where
  "handleCopyJSON s =
     (case selectedChecklist s of
        None \<Rightarrow> \<lparr>next_state = s, toasts = [], clipboard_writes = [], thrown = None\<rparr>
      | Some c \<Rightarrow>
          \<lparr>next_state = s,
           toasts = [\<lparr>toast_title = ''JSON copied!'',
                      toast_description = ''Checklist data has been copied to clipboard.'',
                      variant = Default\<rparr>],
           clipboard_writes = [JSON_stringify (checklistJSON c) 2],
           thrown = None\<rparr>)"

section \<open>The top view together with its viewer\<close>

text \<open>
  The viewer element stands in the tree exactly when
  \<^verbatim>\<open>showChecklist && selectedChecklist\<close>, always at the same place and without a key.
  Its \<^verbatim>\<open>checkedItems\<close> cell starts as \<^verbatim>\<open>{}\<close> when the element is mounted, is kept
  from one render to the next while the element stays, and is gone when it is unmounted.
\<close>

record app_state =
  index :: index_state
  viewer :: "checked_state option"

definition initialApp :: app_state where
  "initialApp = \<lparr>index = initialIndex, viewer = None\<rparr>"

definition viewerShown :: "index_state \<Rightarrow> bool" where
  "viewerShown s = (showChecklist s \<and> selectedChecklist s \<noteq> None)"

definition rerender :: "index_state \<Rightarrow> checked_state option \<Rightarrow> checked_state option" where
  "rerender s v =
     (if viewerShown s then (case v of None \<Rightarrow> Some Map.empty | Some m \<Rightarrow> Some m) else None)"

text \<open>
  The events of the page: choosing an entry of the dropdown, a run of the generate
  handler (its button is disabled while no identifier is selected), typing into the
  search field, a run of the copy handler, and the change of the checkbox of a row. Every
  event is followed by a render.
\<close>

datatype event =
    SelectChecklist string
  | Generate
  | TypeSearch string
  | CopyJSON
  | CheckItem string nat

definition dispatch :: "(string \<times> ChecklistData) list \<Rightarrow> event \<Rightarrow> app_state \<Rightarrow> app_state" where
  "dispatch checklistData ev app =
     (let s = index app;
          s' = (case ev of
                  SelectChecklist i \<Rightarrow> s\<lparr>selectedChecklistId := i\<rparr>
                | Generate \<Rightarrow> next_state (handleGenerateChecklist checklistData s)
                | TypeSearch q \<Rightarrow> s\<lparr>searchQuery := q\<rparr>
                | CopyJSON \<Rightarrow> next_state (handleCopyJSON s)
                | CheckItem sectionName itemIndex \<Rightarrow> s);
          v' = (case ev of
                  CheckItem sectionName itemIndex \<Rightarrow>
                    map_option (handleItemCheck sectionName itemIndex) (viewer app)
                | _ \<Rightarrow> viewer app)
      in \<lparr>index = s', viewer = rerender s' v'\<rparr>)"



definition run :: "(string \<times> ChecklistData) list \<Rightarrow> event list \<Rightarrow> app_state \<Rightarrow> app_state" where
  "run checklistData evs app = fold (dispatch checklistData) evs app"

text \<open>What the page shows for a key: checked or not (unchecked when no viewer is mounted).\<close>

definition checkedIn :: "app_state \<Rightarrow> string \<Rightarrow> bool" where
  "checkedIn app key = (case viewer app of None \<Rightarrow> False | Some m \<Rightarrow> isChecked m key)"

section \<open>Example data\<close>

definition checklistA :: ChecklistData where
  "checklistA =
     \<lparr>id' = ''a'', title = ''Pump'', equipment = ''Pump P-1'', industry = ''Water'',
      frequency = ''Weekly'', estimatedTime = ''1 hour'', version = ''1.0'',
      lastUpdated = ''2024-01-15'',
      sections = [(''Notes'', [''Alpha'', ''Beta'']), (''Calibration'', [])]\<rparr>"

definition checklistB :: ChecklistData where
  "checklistB =
     \<lparr>id' = ''b'', title = ''Press'', equipment = ''Press H-2'', industry = ''Metal'',
      frequency = ''Monthly'', estimatedTime = ''2 hours'', version = ''2.1'',
      lastUpdated = ''2024-02-01'',
      sections = [(''Safety Precautions'', [''Lock out power'']), (''Notes'', [''Gamma''])]\<rparr>"

definition exampleData :: "(string \<times> ChecklistData) list" where
  "exampleData = [(''a'', checklistA), (''b'', checklistB)]"


text \<open>
  A table for the concrete inputs below, which read none of its rows: the item
  \<^verbatim>\<open>A\<close> followed by a capital sigma, and the search string of a capital sigma
  alone.
\<close>

definition noFurtherRows :: ucd where
  "noFurtherRows =
     \<lparr>lowercaseMapping = (\<lambda>cp. cp), isCased = (\<lambda>cp. False), isCaseIgnorable = (\<lambda>cp. False)\<rparr>"

definition sigmaItem :: "nat list" where
  "sigmaItem = [0x41, 0x3A3]"

definition sigmaQuery :: "nat list" where
  "sigmaQuery = [0x3A3]"

text \<open>States used as concrete inputs below.\<close>

definition shownA :: app_state where
  "shownA =
     \<lparr>index = \<lparr>selectedChecklistId = ''b'', selectedChecklist = Some checklistA,
               searchQuery = [], showChecklist = True\<rparr>,
      viewer = Some (handleItemCheck ''Notes'' 0 Map.empty)\<rparr>"


section \<open>Filtering keeps the matching items\<close>

lemma startsWith_iff: "startsWith s t \<longleftrightarrow> (\<exists>ss. s = t @ ss)"
  unfolding startsWith_def
  by (metis append_eq_conv_conj append_take_drop_id)

lemma includes_iff: "includes_str s t \<longleftrightarrow> (\<exists>ps ss. s = ps @ t @ ss)"
proof (induction s)
  case Nil
  then show ?case by auto
next
  case (Cons c s)
  note IH = Cons.IH
  show ?case
  proof
    assume "includes_str (c # s) t"
    then consider "startsWith (c # s) t" | "includes_str s t" by auto
    then show "\<exists>ps ss. c # s = ps @ t @ ss"
    proof cases
      case 1
      then obtain ss where "c # s = t @ ss" by (auto simp: startsWith_iff)
      then have "c # s = [] @ t @ ss" by simp
      then show ?thesis by blast
    next
      case 2
      then obtain ps ss where "s = ps @ t @ ss" using IH by auto
      then have "c # s = (c # ps) @ t @ ss" by simp
      then show ?thesis by blast
    qed
  next
    assume "\<exists>ps ss. c # s = ps @ t @ ss"
    then obtain ps ss where e: "c # s = ps @ t @ ss" by blast
    show "includes_str (c # s) t"
    proof (cases ps)
      case Nil
      then have "startsWith (c # s) t" using e by (metis startsWith_iff append_Nil)
      then show ?thesis by simp
    next
      case (Cons p ps')
      then have "s = ps' @ t @ ss" using e by simp
      then have "includes_str s t" using IH by blast
      then show ?thesis by simp
    qed
  qed
qed

lemma includes_empty: "includes_str s []"
  by (cases s) (simp_all add: startsWith_def)


lemma mapped_window:
  assumes R: "\<And>a b. a \<in> set item \<Longrightarrow> b \<in> set q \<Longrightarrow> (f a = f b) = R a b"
    and i: "i + length q \<le> length item"
  shows "take (length q) (drop i (map f item)) = map f q
           \<longleftrightarrow> list_all2 R (take (length q) (drop i item)) q"
proof -
  let ?w = "take (length q) (drop i item)"
  have len: "length ?w = length q" using i by simp
  have sub: "set ?w \<subseteq> set item"
    by (meson set_take_subset set_drop_subset subset_trans)
  have "take (length q) (drop i (map f item)) = map f ?w"
    by (simp add: take_map drop_map)
  moreover have "map f ?w = map f q \<longleftrightarrow> list_all2 (\<lambda>a b. f a = f b) ?w q"
    using len by (auto simp: list_all2_conv_all_nth list_eq_iff_nth_eq)
  moreover have "list_all2 (\<lambda>a b. f a = f b) ?w q \<longleftrightarrow> list_all2 R ?w q"
  proof
    assume "list_all2 (\<lambda>a b. f a = f b) ?w q"
    then show "list_all2 R ?w q"
      by (rule list.rel_mono_strong) (use R sub in auto)
  next
    assume "list_all2 R ?w q"
    then show "list_all2 (\<lambda>a b. f a = f b) ?w q"
      by (rule list.rel_mono_strong) (use R sub in auto)
  qed
  ultimately show ?thesis by simp
qed

lemma includes_mapped_iff:
  assumes R: "\<And>a b. a \<in> set item \<Longrightarrow> b \<in> set q \<Longrightarrow> (f a = f b) = R a b"
  shows "includes_str (map f item) (map f q)
           \<longleftrightarrow> list_ex (\<lambda>i. i + length q \<le> length item \<and>
                              list_all2 R (take (length q) (drop i item)) q)
                 [0..<Suc (length item)]"
proof
  assume "includes_str (map f item) (map f q)"
  then obtain ps ss where e: "map f item = ps @ map f q @ ss"
    unfolding includes_iff by blast
  then have "length (map f item) = length ps + length (map f q) + length ss"
    by (metis length_append add.assoc)
  then have len: "length item = length ps + length q + length ss" by simp
  then have i: "length ps + length q \<le> length item" by simp
  have "take (length q) (drop (length ps) (map f item)) = map f q"
    using e by simp
  then have "list_all2 R (take (length q) (drop (length ps) item)) q"
    using mapped_window [of item q f R "length ps", OF R i] by simp
  moreover have "length ps \<in> set [0..<Suc (length item)]" using len by simp
  ultimately show "list_ex (\<lambda>i. i + length q \<le> length item \<and>
      list_all2 R (take (length q) (drop i item)) q) [0..<Suc (length item)]"
    unfolding list_ex_iff using i by blast
next
  assume "list_ex (\<lambda>i. i + length q \<le> length item \<and>
      list_all2 R (take (length q) (drop i item)) q) [0..<Suc (length item)]"
  then obtain i where i: "i + length q \<le> length item"
    and w: "list_all2 R (take (length q) (drop i item)) q"
    unfolding list_ex_iff by blast
  let ?L = "map f item"
  have b: "take (length q) (drop i ?L) = map f q"
    using mapped_window [of item q f R i, OF R i] w by simp
  have "?L = take i ?L @ take (length q) (drop i ?L) @ drop (length q) (drop i ?L)"
    by (metis append_take_drop_id)
  with b have "?L = take i ?L @ map f q @ drop (length q) (drop i ?L)" by simp
  then show "includes_str ?L (map f q)" unfolding includes_iff by blast
qed

lemma latin1Lower_eq_iff: "latin1Lower a = latin1Lower b \<longleftrightarrow> sameLetter a b"
  by (auto simp: latin1Lower_def sameLetter_def)

lemma includes_latin1Lower:
  "includes_str (map latin1Lower item) (map latin1Lower q) = containsIgnoringCase item q"
  unfolding containsIgnoringCase_def occursIgnoringCase_def
  by (rule includes_mapped_iff) (rule latin1Lower_eq_iff)

lemma stringToCodePoints_latin1:
  "list_all (\<lambda>x. x < 256) s \<Longrightarrow> stringToCodePoints s = s"
  by (induction s rule: stringToCodePoints.induct) (simp_all add: isLeadingSurrogate_def)

lemma lowercaseText_latin1:
  "list_all (\<lambda>x. x < 256) s \<Longrightarrow> lowercaseText u before s = map latin1Lower s"
  by (induction s arbitrary: before) (simp_all add: lowercaseOf_def)

lemma latin1Lower_small: "x < 256 \<Longrightarrow> latin1Lower x < 0x10000"
  by (simp add: latin1Lower_def)

lemma codePointsToString_small:
  "list_all (\<lambda>x. x < 0x10000) s \<Longrightarrow> codePointsToString s = s"
  by (induction s) (simp_all add: codePointsToString_def utf16EncodeCodePoint_def)

lemma toLowerCaseUTF16_latin1:
  assumes "list_all (\<lambda>x. x < 256) s"
  shows "toLowerCaseUTF16 u s = map latin1Lower s"
proof -
  have "list_all (\<lambda>x. x < 0x10000) (map latin1Lower s)"
    using assms by (simp add: list_all_iff latin1Lower_small)
  then show ?thesis
    using assms
    by (simp add: toLowerCaseUTF16_def stringToCodePoints_latin1 lowercaseText_latin1
        codePointsToString_small)
qed

lemma containsIgnoringCase_empty: "containsIgnoringCase item []"
  by (simp add: containsIgnoringCase_def occursIgnoringCase_def)

lemma filterItemsUTF16_latin1:
  assumes q: "list_all (\<lambda>x. x < 256) q" and items: "list_all (list_all (\<lambda>x. x < 256)) items"
  shows "filterItemsUTF16 u q items = filter (\<lambda>item. containsIgnoringCase item q) items"
proof (cases "q = []")
  case True
  then show ?thesis
    by (simp add: filterItemsUTF16_def containsIgnoringCase_empty)
next
  case False
  have "includes_str (toLowerCaseUTF16 u item) (toLowerCaseUTF16 u q) = containsIgnoringCase item q"
    if "item \<in> set items" for item
  proof -
    have "list_all (\<lambda>x. x < 256) item" using items that by (simp add: list_all_iff)
    then show ?thesis
      using q by (simp add: toLowerCaseUTF16_latin1 includes_latin1Lower)
  qed
  then show ?thesis
    using False by (simp add: filterItemsUTF16_def cong: filter_cong)
qed

text \<open>
  C1, as amended: the filter keeps exactly the items whose lower-cased text contains the
  lower-cased search string, in their order, and with the empty search string it returns
  the item sequence as it is. For strings of code units below 256 the items kept are
  exactly those that contain the search string up to the case of letters.
\<close>

theorem filter_by_lowercased_text:
  "filterItemsUTF16 u [] items = items \<and>
   filterItemsUTF16 u q items
     = filter (\<lambda>item. q = [] \<or> includes_str (toLowerCaseUTF16 u item) (toLowerCaseUTF16 u q)) items \<and>
   (list_all (\<lambda>x. x < 256) q \<and> list_all (list_all (\<lambda>x. x < 256)) items \<longrightarrow>
      filterItemsUTF16 u q items = filter (\<lambda>item. containsIgnoringCase item q) items)"
proof (intro conjI impI)
  show "filterItemsUTF16 u [] items = items"
    by (simp add: filterItemsUTF16_def)
  show "filterItemsUTF16 u q items
     = filter (\<lambda>item. q = [] \<or> includes_str (toLowerCaseUTF16 u item) (toLowerCaseUTF16 u q)) items"
    by (simp add: filterItemsUTF16_def)
  show "filterItemsUTF16 u q items = filter (\<lambda>item. containsIgnoringCase item q) items"
    if "list_all (\<lambda>x. x < 256) q \<and> list_all (list_all (\<lambda>x. x < 256)) items"
    using that by (intro filterItemsUTF16_latin1) simp_all
qed

theorem filter_by_lowercased_text_witness:
  "list_all (\<lambda>x. x < 256) (codeUnits ''LoCk'') \<and>
   list_all (list_all (\<lambda>x. x < 256))
     (map codeUnits [''Lock out power'', ''Check oil'', ''unLOCK door'']) \<and>
   filterItemsUTF16 noFurtherRows (codeUnits ''LoCk'')
     (map codeUnits [''Lock out power'', ''Check oil'', ''unLOCK door''])
   = map codeUnits [''Lock out power'', ''unLOCK door'']"
proof -
  have a: "list_all (\<lambda>x. x < 256) (codeUnits ''LoCk'')" by code_simp
  have b: "list_all (list_all (\<lambda>x. x < 256))
      (map codeUnits [''Lock out power'', ''Check oil'', ''unLOCK door''])" by code_simp
  have c: "filter (\<lambda>item. containsIgnoringCase item (codeUnits ''LoCk''))
      (map codeUnits [''Lock out power'', ''Check oil'', ''unLOCK door''])
      = map codeUnits [''Lock out power'', ''unLOCK door'']" by code_simp
  note t = filter_by_lowercased_text [of noFurtherRows
      "map codeUnits [''Lock out power'', ''Check oil'', ''unLOCK door'']" "codeUnits ''LoCk''"]
  from t a b have "filterItemsUTF16 noFurtherRows (codeUnits ''LoCk'')
         (map codeUnits [''Lock out power'', ''Check oil'', ''unLOCK door''])
       = filter (\<lambda>item. containsIgnoringCase item (codeUnits ''LoCk''))
      (map codeUnits [''Lock out power'', ''Check oil'', ''unLOCK door''])" by blast
  with a b c show ?thesis
    by (simp only: simp_thms)
qed

text \<open>
  Whatever the rows of the table are that are not written out, the item \<^verbatim>\<open>A\<close>
  followed by a capital sigma contains the search string of a capital sigma as it is, but
  the sigma at the end of the item is lower-cased to the final sigma and the one of the
  search string to the ordinary small sigma, so the filter drops the item.
\<close>

lemma sigma_item_dropped:
  "includes_str sigmaItem sigmaQuery \<and>
   containsIgnoringCase sigmaItem sigmaQuery \<and>
   toLowerCaseUTF16 u sigmaItem = [0x61, 0x3C2] \<and>
   toLowerCaseUTF16 u sigmaQuery = [0x3C3] \<and>
   filterItemsUTF16 u sigmaQuery [sigmaItem] = []"
proof -
  have a: "toLowerCaseUTF16 u sigmaItem = [0x61, 0x3C2]"
    by (simp add: toLowerCaseUTF16_def sigmaItem_def isLeadingSurrogate_def finalSigma_def
        casedOf_def lowercaseOf_def latin1Lower_def codePointsToString_def utf16EncodeCodePoint_def)
  have b: "toLowerCaseUTF16 u sigmaQuery = [0x3C3]"
    by (simp add: toLowerCaseUTF16_def sigmaQuery_def finalSigma_def
        codePointsToString_def utf16EncodeCodePoint_def)
  have c: "includes_str sigmaItem sigmaQuery"
    by (simp add: sigmaItem_def sigmaQuery_def startsWith_def)
  have d: "containsIgnoringCase sigmaItem sigmaQuery"
    by (simp add: sigmaItem_def sigmaQuery_def containsIgnoringCase_def occursIgnoringCase_def
        sameLetter_def upt_rec)
  have e: "filterItemsUTF16 u sigmaQuery [sigmaItem] = []"
    by (simp add: filterItemsUTF16_def a b startsWith_def) (simp add: sigmaQuery_def)
  from c d a b e show ?thesis by (intro conjI)
qed

text \<open>
  C1 as stated fails: the item \<^verbatim>\<open>A\<close> followed by a capital sigma contains the search
  string of a capital sigma, as it is and so up to the case of letters, and the filter
  does not keep it.
\<close>

theorem filter_final_sigma_counterexample:
  "includes_str sigmaItem sigmaQuery \<and>
   containsIgnoringCase sigmaItem sigmaQuery \<and>
   toLowerCaseUTF16 noFurtherRows sigmaItem = [0x61, 0x3C2] \<and>
   toLowerCaseUTF16 noFurtherRows sigmaQuery = [0x3C3] \<and>
   filterItemsUTF16 noFurtherRows sigmaQuery [sigmaItem] = []"
  by (rule sigma_item_dropped)








section \<open>Keys of the checked state\<close>

lemma of_char_digitChar: "d < 10 \<Longrightarrow> (of_char (digitChar d) :: nat) = 48 + d"
  by (simp add: digitChar_def)

lemma digitChar_inj: "a < 10 \<Longrightarrow> b < 10 \<Longrightarrow> digitChar a = digitChar b \<Longrightarrow> a = b"
proof -
  assume a: "a < 10" and b: "b < 10" and e: "digitChar a = digitChar b"
  from e have "(of_char (digitChar a) :: nat) = of_char (digitChar b)" by simp
  with a b show "a = b" by (simp add: of_char_digitChar)
qed

lemma digitChar_not_dash: "d < 10 \<Longrightarrow> digitChar d \<noteq> CHR ''-''"
proof
  assume d: "d < 10" and e: "digitChar d = CHR ''-''"
  from e have "(of_char (digitChar d) :: nat) = of_char CHR ''-''" by simp
  with d show False by (simp add: of_char_digitChar)
qed

lemma indexToString_not_Nil: "indexToString n \<noteq> []"
  by (subst indexToString.simps) simp

lemma dash_notin_indexToString: "CHR ''-'' \<notin> set (indexToString n)"
proof (induction n rule: indexToString.induct)
  case (1 n)
  show ?case
  proof (cases "n < 10")
    case True
    then show ?thesis
      using digitChar_not_dash [of n] by (subst indexToString.simps) auto
  next
    case False
    have "n mod 10 < 10" by simp
    then have "digitChar (n mod 10) \<noteq> CHR ''-''" by (rule digitChar_not_dash)
    with False "1.IH" show ?thesis
      by (subst indexToString.simps) auto
  qed
qed

lemma indexToString_small: "n < 10 \<Longrightarrow> indexToString n = [digitChar n]"
  by (subst indexToString.simps) simp

lemma indexToString_large:
  "\<not> n < 10 \<Longrightarrow> indexToString n = indexToString (n div 10) @ [digitChar (n mod 10)]"
  by (subst indexToString.simps) simp

lemma indexToString_inj: "indexToString a = indexToString b \<Longrightarrow> a = b"
proof (induction a arbitrary: b rule: indexToString.induct)
  case (1 n)
  note e = "1.prems"
  show ?case
  proof (cases "n < 10")
    case n: True
    show ?thesis
    proof (cases "b < 10")
      case True
      from e have "[digitChar n] = [digitChar b]"
        by (simp only: indexToString_small [OF n] indexToString_small [OF True])
      then have "digitChar n = digitChar b" by (simp only: list.inject)
      with n True show ?thesis by (rule digitChar_inj)
    next
      case False
      from e have "[digitChar n] = indexToString (b div 10) @ [digitChar (b mod 10)]"
        by (simp only: indexToString_small [OF n] indexToString_large [OF False])
      then have "indexToString (b div 10) = []"
        by (metis append_is_Nil_conv butlast.simps(2) butlast_snoc)
      then show ?thesis by (simp only: indexToString_not_Nil)
    qed
  next
    case n: False
    show ?thesis
    proof (cases "b < 10")
      case True
      from e have "indexToString (n div 10) @ [digitChar (n mod 10)] = [digitChar b]"
        by (simp only: indexToString_small [OF True] indexToString_large [OF n])
      then have "indexToString (n div 10) = []"
        by (metis append_is_Nil_conv butlast.simps(2) butlast_snoc)
      then show ?thesis by (simp only: indexToString_not_Nil)
    next
      case False
      from e have "indexToString (n div 10) @ [digitChar (n mod 10)]
          = indexToString (b div 10) @ [digitChar (b mod 10)]"
        by (simp only: indexToString_large [OF False] indexToString_large [OF n])
      then have q: "indexToString (n div 10) = indexToString (b div 10)"
        and r: "digitChar (n mod 10) = digitChar (b mod 10)"
        by (simp_all only: append1_eq_conv)
      from n q have "n div 10 = b div 10" by (rule "1.IH")
      moreover have "n mod 10 = b mod 10"
      proof (rule digitChar_inj)
        show "n mod 10 < 10" by (rule mod_less_divisor) simp
        show "b mod 10 < 10" by (rule mod_less_divisor) simp
        show "digitChar (n mod 10) = digitChar (b mod 10)" by (fact r)
      qed
      ultimately show ?thesis by (metis div_mult_mod_eq)
    qed
  qed
qed

lemma split_at_last_dash:
  assumes e: "s @ CHR ''-'' # d = s' @ CHR ''-'' # d'"
    and d: "CHR ''-'' \<notin> set d" and d': "CHR ''-'' \<notin> set d'"
  shows "s = s' \<and> d = d'"
proof -
  have tw: "rev (takeWhile (\<lambda>c. c \<noteq> CHR ''-'') (rev (a @ CHR ''-'' # b))) = b"
    if "CHR ''-'' \<notin> set b" for a b
  proof -
    have "takeWhile (\<lambda>c. c \<noteq> CHR ''-'') (rev b @ CHR ''-'' # rev a) = rev b"
      using that by (induction b rule: rev_induct) auto
    then show ?thesis by simp
  qed
  have "d = rev (takeWhile (\<lambda>c. c \<noteq> CHR ''-'') (rev (s @ CHR ''-'' # d)))"
    using tw [OF d] by simp
  also have "\<dots> = rev (takeWhile (\<lambda>c. c \<noteq> CHR ''-'') (rev (s' @ CHR ''-'' # d')))"
    by (simp only: e)
  also have "\<dots> = d'" using tw [OF d'] by simp
  finally have "d = d'" .
  with e show ?thesis by simp
qed

lemma itemKey_inj: "itemKey s i = itemKey s' i' \<Longrightarrow> s = s' \<and> i = i'"
proof -
  assume "itemKey s i = itemKey s' i'"
  then have "s @ CHR ''-'' # indexToString i = s' @ CHR ''-'' # indexToString i'"
    by (simp add: itemKey_def)
  then have "s = s' \<and> indexToString i = indexToString i'"
    by (rule split_at_last_dash) (rule dash_notin_indexToString)+
  then show ?thesis by (auto dest: indexToString_inj)
qed

text \<open>
  C8: toggling the same item twice gives a checked state in which every key reads as it
  did before, and toggling one item leaves what is recorded under the key of every other
  pair of section name and index as it was.
\<close>

theorem toggle_twice_and_others:
  "isChecked (handleItemCheck s i (handleItemCheck s i m)) k = isChecked m k \<and>
   ((s', i') \<noteq> (s, i) \<longrightarrow> handleItemCheck s i m (itemKey s' i') = m (itemKey s' i'))"
proof
  show "isChecked (handleItemCheck s i (handleItemCheck s i m)) k = isChecked m k"
    by (simp add: isChecked_def handleItemCheck_def Let_def truthy_def split: option.splits)
next
  show "(s', i') \<noteq> (s, i) \<longrightarrow> handleItemCheck s i m (itemKey s' i') = m (itemKey s' i')"
  proof
    assume "(s', i') \<noteq> (s, i)"
    then have "itemKey s' i' \<noteq> itemKey s i" using itemKey_inj by blast
    then show "handleItemCheck s i m (itemKey s' i') = m (itemKey s' i')"
      by (simp add: handleItemCheck_def Let_def)
  qed
qed

theorem toggle_twice_and_others_witness:
  "isChecked (handleItemCheck ''Notes'' 0 (handleItemCheck ''Notes'' 0 Map.empty)) ''Notes-0''
     = isChecked Map.empty ''Notes-0'' \<and>
   (''Notes'', 1::nat) \<noteq> (''Notes'', 0) \<and>
   handleItemCheck ''Notes'' 0 Map.empty (itemKey ''Notes'' 1) = Map.empty (itemKey ''Notes'' 1)"
  using toggle_twice_and_others [of "''Notes''" 0 Map.empty "''Notes-0''" "''Notes''" 1] by simp

section \<open>What a section renders\<close>






lemma renderRows_labels: "map row_label (renderRows m n items) = items"
  by (simp add: renderRows_def renderRow_def Let_def enumerate_eq_zip comp_def split_def)


lemma map_filter_id_map:
  "List.map_filter (\<lambda>x. x) (map f xs) = List.map_filter f xs"
  by (induction xs) (simp_all add: List.map_filter_simps split: option.splits)

lemma displayed_names:
  "map sec_name (displayed c q m)
   = filter (\<lambda>n. q = [] \<or> filterItems q (sectionItems c n) \<noteq> []) sectionOrder"
proof -
  have "map sec_name (List.map_filter (\<lambda>n. renderSection c q m n) ns)
      = filter (\<lambda>n. q = [] \<or> filterItems q (sectionItems c n) \<noteq> []) ns" for ns
    by (induction ns) (auto simp: List.map_filter_simps renderSection_def Let_def split: option.splits)
  then show ?thesis
    by (simp add: displayed_def renderSections_def map_filter_id_map)
qed

lemma sectionItems_cong:
  "map_of (sections c) = map_of (sections c') \<Longrightarrow> sectionItems c n = sectionItems c' n"
  by (simp add: sectionItems_def)

lemma renderSection_cong:
  "map_of (sections c) = map_of (sections c') \<Longrightarrow> renderSection c q m n = renderSection c' q m n"
  by (simp add: renderSection_def sectionItems_cong [of c c'])



text \<open>
  C10: the entries of the render (which sections, in which order, with which item texts
  in which order, with or without the notice) are the same for any two checked-state
  maps: they depend on the checklist and the search string only.
\<close>

theorem display_ignores_checked_state:
  "map (map_option (\<lambda>sv. (sec_name sv, map row_label (sec_rows sv), sec_noItems sv)))
       (renderSections c q m1)
   = map (map_option (\<lambda>sv. (sec_name sv, map row_label (sec_rows sv), sec_noItems sv)))
       (renderSections c q m2) \<and>
   map (\<lambda>sv. (sec_name sv, map row_label (sec_rows sv))) (displayed c q m1)
   = map (\<lambda>sv. (sec_name sv, map row_label (sec_rows sv))) (displayed c q m2)"
proof -
  have one: "map_option (\<lambda>sv. (sec_name sv, map row_label (sec_rows sv), sec_noItems sv))
        (renderSection c q m1 n)
      = map_option (\<lambda>sv. (sec_name sv, map row_label (sec_rows sv), sec_noItems sv))
        (renderSection c q m2 n)" for n
    by (simp add: renderSection_def Let_def renderRows_labels)
  have two: "map_option (\<lambda>sv. (sec_name sv, map row_label (sec_rows sv))) (renderSection c q m1 n)
      = map_option (\<lambda>sv. (sec_name sv, map row_label (sec_rows sv))) (renderSection c q m2 n)" for n
    by (simp add: renderSection_def Let_def renderRows_labels)
  have mf: "map f (List.map_filter (\<lambda>x. x) xs) = List.map_filter (\<lambda>x. x) (map (map_option f) xs)"
    for f :: "section_view \<Rightarrow> string \<times> string list" and xs
    by (induction xs) (auto simp: List.map_filter_simps split: option.splits)
  have one': "map_option (\<lambda>sv. (sec_name sv, map row_label (sec_rows sv), sec_noItems sv))
        \<circ> renderSection c q m1
      = map_option (\<lambda>sv. (sec_name sv, map row_label (sec_rows sv), sec_noItems sv))
        \<circ> renderSection c q m2"
    by (rule ext) (simp add: one)
  have two': "map_option (\<lambda>sv. (sec_name sv, map row_label (sec_rows sv))) \<circ> renderSection c q m1
      = map_option (\<lambda>sv. (sec_name sv, map row_label (sec_rows sv))) \<circ> renderSection c q m2"
    by (rule ext) (simp add: two)
  show ?thesis
    by (simp add: renderSections_def displayed_def mf one' two')
qed

text \<open>
  C7: the names of the sections on display are the canonical order restricted to the
  sections that are shown (all of it when the search string is empty); two checklists
  whose section maps hold the same entries in any key order display the same; and a
  name that is no key of the section map has the empty item sequence and renders as if
  the map gave it the empty array.
\<close>

theorem sections_in_canonical_order:
  "map sec_name (displayed c q m)
     = filter (\<lambda>n. q = [] \<or> filterItems q (sectionItems c n) \<noteq> []) sectionOrder \<and>
   map sec_name (displayed c [] m) = sectionOrder \<and>
   (distinct (map fst (sections c)) \<and> distinct (map fst (sections c')) \<and>
    set (sections c') = set (sections c) \<longrightarrow> displayed c' q m = displayed c q m) \<and>
   (n \<notin> fst ` set (sections c) \<longrightarrow>
      sectionItems c n = [] \<and>
      renderSection c q m n = renderSection (c\<lparr>sections := (n, []) # sections c\<rparr>) q m n)"
proof (intro conjI impI)
  show "map sec_name (displayed c q m)
     = filter (\<lambda>n. q = [] \<or> filterItems q (sectionItems c n) \<noteq> []) sectionOrder"
    by (rule displayed_names)
  show "map sec_name (displayed c [] m) = sectionOrder"
    by (simp add: displayed_names)
next
  assume "distinct (map fst (sections c)) \<and> distinct (map fst (sections c')) \<and>
    set (sections c') = set (sections c)"
  then have "map_of (sections c') = map_of (sections c)"
    by (simp add: map_of_inject_set)
  then have "renderSection c' q m k = renderSection c q m k" for k
    by (rule renderSection_cong)
  then have "renderSection c' q m = renderSection c q m"
    by (rule ext)
  then show "displayed c' q m = displayed c q m"
    by (simp add: displayed_def renderSections_def)
next
  assume a: "n \<notin> fst ` set (sections c)"
  then have none: "map_of (sections c) n = None"
    by (simp add: map_of_eq_None_iff)
  then show "sectionItems c n = []" by (simp add: sectionItems_def)
  show "renderSection c q m n = renderSection (c\<lparr>sections := (n, []) # sections c\<rparr>) q m n"
    using none by (simp add: renderSection_def sectionItems_def)
qed

theorem sections_in_canonical_order_witness:
  "map sec_name (displayed checklistA ''b'' Map.empty) = [''Notes''] \<and>
   map sec_name (displayed checklistA [] Map.empty) = sectionOrder \<and>
   displayed (checklistA\<lparr>sections := rev (sections checklistA)\<rparr>) ''b'' Map.empty
     = displayed checklistA ''b'' Map.empty \<and>
   sectionItems checklistA ''Lubrication'' = [] \<and>
   renderSection checklistA [] Map.empty ''Lubrication''
     = renderSection (checklistA\<lparr>sections := (''Lubrication'', []) # sections checklistA\<rparr>) [] Map.empty ''Lubrication''"
proof -
  have f: "filter (\<lambda>n. ''b'' = [] \<or> filterItems ''b'' (sectionItems checklistA n) \<noteq> []) sectionOrder
      = [''Notes'']" by code_simp
  have d: "distinct (map fst (sections checklistA))"
    "distinct (map fst (sections (checklistA\<lparr>sections := rev (sections checklistA)\<rparr>)))"
    "set (sections (checklistA\<lparr>sections := rev (sections checklistA)\<rparr>)) = set (sections checklistA)"
    by (auto simp: checklistA_def)
  have a: "''Lubrication'' \<notin> fst ` set (sections checklistA)"
    by (simp add: checklistA_def)
  show ?thesis
    using sections_in_canonical_order [of checklistA "''b''" Map.empty "checklistA\<lparr>sections := rev (sections checklistA)\<rparr>" "''Lubrication''"]
      sections_in_canonical_order [of checklistA "[]" Map.empty checklistA "''Lubrication''"] f d a
    by simp
qed



section \<open>Generating a checklist\<close>

lemma dispatch_index_cases:
  "index (dispatch d ev app) =
     (case ev of
        SelectChecklist i \<Rightarrow> (index app)\<lparr>selectedChecklistId := i\<rparr>
      | Generate \<Rightarrow> next_state (handleGenerateChecklist d (index app))
      | TypeSearch q \<Rightarrow> (index app)\<lparr>searchQuery := q\<rparr>
      | CopyJSON \<Rightarrow> next_state (handleCopyJSON (index app))
      | CheckItem n i \<Rightarrow> index app)"
  by (simp add: dispatch_def Let_def)

lemma handleCopyJSON_state: "next_state (handleCopyJSON s) = s"
  by (simp add: handleCopyJSON_def split: option.splits)

lemma shown_needs_id_step:
  assumes inv: "showChecklist (index app) \<longrightarrow> selectedChecklistId (index app) \<noteq> []"
    and ev: "ev \<noteq> SelectChecklist []"
  shows "showChecklist (index (dispatch d ev app)) \<longrightarrow>
         selectedChecklistId (index (dispatch d ev app)) \<noteq> []"
proof (cases ev)
  case (SelectChecklist i)
  with ev show ?thesis by (simp add: dispatch_index_cases)
next
  case Generate
  with inv show ?thesis
    by (auto simp: dispatch_index_cases handleGenerateChecklist_def Let_def split: option.splits)
next
  case (TypeSearch q)
  with inv show ?thesis by (simp add: dispatch_index_cases)
next
  case CopyJSON
  with inv show ?thesis by (simp add: dispatch_index_cases handleCopyJSON_state)
next
  case (CheckItem n i)
  with inv show ?thesis by (simp add: dispatch_index_cases)
qed

lemma shown_needs_id_fold:
  "list_all (\<lambda>e. e \<noteq> SelectChecklist []) evs \<Longrightarrow>
   showChecklist (index app) \<longrightarrow> selectedChecklistId (index app) \<noteq> [] \<Longrightarrow>
   showChecklist (index (fold (dispatch d) evs app)) \<longrightarrow>
     selectedChecklistId (index (fold (dispatch d) evs app)) \<noteq> []"
proof (induction evs arbitrary: app)
  case Nil
  then show ?case by simp
next
  case (Cons e evs)
  from Cons.prems have e: "e \<noteq> SelectChecklist []" and r: "list_all (\<lambda>e. e \<noteq> SelectChecklist []) evs"
    by simp_all
  have "showChecklist (index (dispatch d e app)) \<longrightarrow>
         selectedChecklistId (index (dispatch d e app)) \<noteq> []"
    using Cons.prems(2) e by (rule shown_needs_id_step)
  with r show ?case using Cons.IH [of "dispatch d e app"] by simp
qed

text \<open>
  C5: a generate request with no identifier selected raises the warning notification,
  writes nothing, throws nothing and leaves the state as it was. In every state the page
  reaches from its initial state (the dropdown never selects the empty identifier) the
  show flag is false when no identifier is selected, and it is false afterwards.
\<close>

theorem generate_without_selection:
  assumes "selectedChecklistId s = []"
  shows "next_state (handleGenerateChecklist d s) = s \<and>
         toasts (handleGenerateChecklist d s) = [selectWarning] \<and>
         clipboard_writes (handleGenerateChecklist d s) = [] \<and>
         thrown (handleGenerateChecklist d s) = None \<and>
         (list_all (\<lambda>e. e \<noteq> SelectChecklist []) evs \<and> s = index (run d evs initialApp) \<longrightarrow>
            \<not> showChecklist s \<and> \<not> showChecklist (next_state (handleGenerateChecklist d s)))"
proof -
  have st: "next_state (handleGenerateChecklist d s) = s"
    using assms by (simp add: handleGenerateChecklist_def)
  have "\<not> showChecklist s"
    if "list_all (\<lambda>e. e \<noteq> SelectChecklist []) evs" and "s = index (run d evs initialApp)"
  proof -
    have "showChecklist (index initialApp) \<longrightarrow> selectedChecklistId (index initialApp) \<noteq> []"
      by (simp add: initialApp_def initialIndex_def)
    with that(1) have "showChecklist (index (fold (dispatch d) evs initialApp)) \<longrightarrow>
        selectedChecklistId (index (fold (dispatch d) evs initialApp)) \<noteq> []"
      by (rule shown_needs_id_fold)
    with that(2) assms show ?thesis by (simp add: run_def)
  qed
  then have fl: "list_all (\<lambda>e. e \<noteq> SelectChecklist []) evs \<and> s = index (run d evs initialApp) \<longrightarrow>
            \<not> showChecklist s \<and> \<not> showChecklist (next_state (handleGenerateChecklist d s))"
    by (simp only: st) blast
  have rest: "toasts (handleGenerateChecklist d s) = [selectWarning] \<and>
         clipboard_writes (handleGenerateChecklist d s) = [] \<and>
         thrown (handleGenerateChecklist d s) = None"
    using assms by (simp add: handleGenerateChecklist_def)
  from st rest fl show ?thesis by (intro conjI) simp_all
qed

theorem generate_without_selection_witness:
  "selectedChecklistId (index (run exampleData [TypeSearch ''x''] initialApp)) = [] \<and>
   list_all (\<lambda>e. e \<noteq> SelectChecklist []) [TypeSearch ''x''] \<and>
   next_state (handleGenerateChecklist exampleData (index (run exampleData [TypeSearch ''x''] initialApp)))
     = index (run exampleData [TypeSearch ''x''] initialApp) \<and>
   toasts (handleGenerateChecklist exampleData (index (run exampleData [TypeSearch ''x''] initialApp)))
     = [selectWarning] \<and>
   \<not> showChecklist (next_state (handleGenerateChecklist exampleData
        (index (run exampleData [TypeSearch ''x''] initialApp))))"
proof -
  have i: "selectedChecklistId (index (run exampleData [TypeSearch ''x''] initialApp)) = []"
    by (simp add: run_def dispatch_def Let_def initialApp_def initialIndex_def)
  show ?thesis
    using generate_without_selection [OF i, of exampleData "[TypeSearch ''x'']"] i by simp
qed





text \<open>
  C2, as amended: generating a checklist for an identifier of the dataset leaves the
  checked-state map of a mounted viewer as it is, whichever checklist was shown before
  (the viewer element stays in place, so no new instance is created); the map is empty
  only when the viewer is mounted by this request.
\<close>

theorem generate_keeps_checked_state:
  "(selectedChecklistId (index app) \<noteq> [] \<and> map_of d (selectedChecklistId (index app)) = Some c \<longrightarrow>
      selectedChecklist (index (dispatch d Generate app)) = Some c \<and>
      viewer (dispatch d Generate app) = Some (case viewer app of None \<Rightarrow> Map.empty | Some m \<Rightarrow> m))"
  by (simp add: dispatch_def Let_def handleGenerateChecklist_def rerender_def viewerShown_def
      split: option.splits)

theorem generate_keeps_checked_state_witness:
  "selectedChecklistId (index shownA) \<noteq> [] \<and>
   map_of exampleData (selectedChecklistId (index shownA)) = Some checklistB \<and>
   selectedChecklist (index shownA) = Some checklistA \<and>
   selectedChecklist (index (dispatch exampleData Generate shownA)) = Some checklistB \<and>
   viewer (dispatch exampleData Generate shownA) = viewer shownA \<and>
   checkedIn (dispatch exampleData Generate shownA) (itemKey ''Notes'' 0)"
proof -
  have a: "selectedChecklistId (index shownA) \<noteq> []"
    by (simp add: shownA_def)
  have b: "map_of exampleData (selectedChecklistId (index shownA)) = Some checklistB"
    by (simp add: shownA_def exampleData_def)
  show ?thesis
    using generate_keeps_checked_state [of shownA exampleData checklistB] a b
    by (simp add: shownA_def checkedIn_def handleItemCheck_def isChecked_def truthy_def)
qed

text \<open>
  C2 as stated fails: after generating checklist \<^verbatim>\<open>a\<close>, checking the first item of
  its Notes section and generating checklist \<^verbatim>\<open>b\<close>, the key of that row is still
  checked.
\<close>

theorem generate_resets_counterexample:
  "selectedChecklist (index (run exampleData
      [SelectChecklist ''a'', Generate, CheckItem ''Notes'' 0, SelectChecklist ''b'', Generate]
      initialApp)) = Some checklistB \<and>
   checkedIn (run exampleData
      [SelectChecklist ''a'', Generate, CheckItem ''Notes'' 0, SelectChecklist ''b'', Generate]
      initialApp) (itemKey ''Notes'' 0)"
  by (simp add: run_def dispatch_def Let_def initialApp_def initialIndex_def exampleData_def
      handleGenerateChecklist_def rerender_def viewerShown_def checkedIn_def
      handleItemCheck_def isChecked_def truthy_def)

section \<open>The copied text parses back\<close>

lemma char_by_code: "(of_char c :: nat) = of_char d \<Longrightarrow> c = d"
  by (simp only: of_char_eq_iff)

lemma hexValue_hexDigit: "d < 16 \<Longrightarrow> hexValue (hexDigit d) = Some d"
  by (auto simp: hexValue_def hexDigit_def Let_def)

lemma hexValue_zero: "hexValue CHR ''0'' = Some 0"
  by (simp add: hexValue_def)

lemma lexer_escape_u:
  assumes "n < 32"
  shows "lexer (InStr acc)
           ([CHR 0x5C, CHR ''u'', CHR ''0'', CHR ''0'', hexDigit (n div 16), hexDigit (n mod 16)] @ rest)
         = lexer (InStr (acc @ [char_of n])) rest"
proof -
  have d1: "hexValue (hexDigit (n div 16)) = Some (n div 16)"
    using assms by (intro hexValue_hexDigit) simp
  have d2: "hexValue (hexDigit (n mod 16)) = Some (n mod 16)"
    by (intro hexValue_hexDigit) simp
  have v: "16 * (n div 16) + n mod 16 = n" by simp
  have "n < 256" using assms by simp
  then show ?thesis
    by (simp add: hexValue_zero d1 d2 v)
qed

lemma lexer_escapeUnit:
  "lexer (InStr acc) (escapeUnit c @ rest) = lexer (InStr (acc @ [c])) rest"
proof -
  define n where "n = (of_char c :: nat)"
  have c: "c = char_of n" by (simp add: n_def)
  consider "n = 8" | "n = 9" | "n = 10" | "n = 12" | "n = 13" | "n = 34" | "n = 92"
    | "n < 32" "n \<noteq> 8" "n \<noteq> 9" "n \<noteq> 10" "n \<noteq> 12" "n \<noteq> 13"
    | "32 \<le> n" "n \<noteq> 34" "n \<noteq> 92"
    by linarith
  then show ?thesis
  proof cases
    case 1
    then have "c = CHR 0x08" unfolding n_def by (intro char_by_code) simp
    then show ?thesis by (simp add: escapeUnit_def unescape_def)
  next
    case 2
    then have "c = CHR 0x09" unfolding n_def by (intro char_by_code) simp
    then show ?thesis by (simp add: escapeUnit_def unescape_def)
  next
    case 3
    then have "c = CHR 0x0A" unfolding n_def by (intro char_by_code) simp
    then show ?thesis by (simp add: escapeUnit_def unescape_def)
  next
    case 4
    then have "c = CHR 0x0C" unfolding n_def by (intro char_by_code) simp
    then show ?thesis by (simp add: escapeUnit_def unescape_def)
  next
    case 5
    then have "c = CHR 0x0D" unfolding n_def by (intro char_by_code) simp
    then show ?thesis by (simp add: escapeUnit_def unescape_def)
  next
    case 6
    then have "c = CHR 0x22" unfolding n_def by (intro char_by_code) simp
    then show ?thesis by (simp add: escapeUnit_def unescape_def)
  next
    case 7
    then have "c = CHR 0x5C" unfolding n_def by (intro char_by_code) simp
    then show ?thesis by (simp add: escapeUnit_def unescape_def)
  next
    case 8
    then have "escapeUnit c =
        [CHR 0x5C, CHR ''u'', CHR ''0'', CHR ''0'', hexDigit (n div 16), hexDigit (n mod 16)]"
      by (simp add: escapeUnit_def n_def [symmetric])
    then show ?thesis
      using lexer_escape_u [OF 8(1), of acc rest] c by simp
  next
    case 9
    then have e: "escapeUnit c = [c]"
      by (simp add: escapeUnit_def n_def [symmetric])
    have "c \<noteq> CHR 0x22" "c \<noteq> CHR 0x5C"
      using 9 by (auto simp: n_def)
    with 9 show ?thesis
      by (simp add: e n_def [symmetric])
  qed
qed

lemma lexer_string_body:
  "lexer (InStr acc) (concat (map escapeUnit s) @ CHR 0x22 # rest)
     = map_option (Cons (TString (acc @ s))) (lexer Plain rest)"
proof (induction s arbitrary: acc)
  case Nil
  show ?case by simp
next
  case (Cons c s)
  have "lexer (InStr acc) (concat (map escapeUnit (c # s)) @ CHR 0x22 # rest)
      = lexer (InStr acc) (escapeUnit c @ (concat (map escapeUnit s) @ CHR 0x22 # rest))"
    by simp
  also have "\<dots> = lexer (InStr (acc @ [c])) (concat (map escapeUnit s) @ CHR 0x22 # rest)"
    by (rule lexer_escapeUnit)
  also have "\<dots> = map_option (Cons (TString ((acc @ [c]) @ s))) (lexer Plain rest)"
    by (rule Cons.IH)
  finally show ?case by simp
qed

lemma lexer_quoted:
  "lexer Plain (quoteJSONString s @ rest) = map_option (Cons (TString s)) (lexer Plain rest)"
  using lexer_string_body [of "[]" s rest]
  by (simp add: quoteJSONString_def isWhitespace_def)

lemma lexer_whitespace:
  "list_all isWhitespace ws \<Longrightarrow> lexer Plain (ws @ rest) = lexer Plain rest"
  by (induction ws) simp_all


lemma joinWith_Cons: "joinWith sep (x # xs) = x @ concat (map (\<lambda>y. sep @ y) xs)"
  by (induction xs arbitrary: x) simp_all

lemma joinWith_map_Cons:
  "joinWith sep (map f (x # xs)) = f x @ concat (map (\<lambda>y. sep @ f y) xs)"
  by (simp add: joinWith_Cons comp_def)

lemma prepend_prepend:
  "map_option ((@) a) (map_option ((@) b) r) = map_option ((@) (a @ b)) r"
  by (cases r) simp_all

lemma lexer_tail_pieces:
  assumes piece: "\<And>x r. x \<in> set xs \<Longrightarrow> lexer Plain (f x @ r) = map_option ((@) (g x)) (lexer Plain r)"
    and sep: "\<And>r. lexer Plain (sep @ r) = map_option (Cons TComma) (lexer Plain r)"
  shows "lexer Plain (concat (map (\<lambda>y. sep @ f y) xs) @ rest)
         = map_option ((@) (concat (map (\<lambda>y. TComma # g y) xs))) (lexer Plain rest)"
  using piece
proof (induction xs)
  case Nil
  show ?case by (simp add: option.map_ident)
next
  case (Cons x xs)
  have ih: "lexer Plain (concat (map (\<lambda>y. sep @ f y) xs) @ rest)
         = map_option ((@) (concat (map (\<lambda>y. TComma # g y) xs))) (lexer Plain rest)"
    by (rule Cons.IH) (simp add: Cons.prems)
  have px: "lexer Plain (f x @ r) = map_option ((@) (g x)) (lexer Plain r)" for r
    by (rule Cons.prems) simp
  have "lexer Plain (concat (map (\<lambda>y. sep @ f y) (x # xs)) @ rest)
      = lexer Plain (sep @ (f x @ (concat (map (\<lambda>y. sep @ f y) xs) @ rest)))"
    by simp
  also have "\<dots> = map_option (Cons TComma)
      (lexer Plain (f x @ (concat (map (\<lambda>y. sep @ f y) xs) @ rest)))"
    by (rule sep)
  also have "\<dots> = map_option (Cons TComma)
      (map_option ((@) (g x)) (lexer Plain (concat (map (\<lambda>y. sep @ f y) xs) @ rest)))"
    by (simp only: px)
  also have "\<dots> = map_option (Cons TComma)
      (map_option ((@) (g x))
         (map_option ((@) (concat (map (\<lambda>y. TComma # g y) xs))) (lexer Plain rest)))"
    by (simp only: ih)
  also have "\<dots> = map_option ((@) (concat (map (\<lambda>y. TComma # g y) (x # xs))))
      (lexer Plain rest)"
    by (cases "lexer Plain rest") simp_all
  finally show ?case .
qed

lemma lexer_joined:
  assumes piece: "\<And>x r. x \<in> set xs \<Longrightarrow> lexer Plain (f x @ r) = map_option ((@) (g x)) (lexer Plain r)"
    and sep: "\<And>r. lexer Plain (sep @ r) = map_option (Cons TComma) (lexer Plain r)"
    and ne: "xs \<noteq> []"
  shows "lexer Plain (joinWith sep (map f xs) @ rest)
         = map_option ((@) (joinWith [TComma] (map g xs))) (lexer Plain rest)"
proof -
  from ne obtain x ys where xs: "xs = x # ys" by (cases xs) auto
  have t: "lexer Plain (concat (map (\<lambda>y. sep @ f y) ys) @ rest)
         = map_option ((@) (concat (map (\<lambda>y. TComma # g y) ys))) (lexer Plain rest)"
    by (rule lexer_tail_pieces) (simp_all add: piece sep xs)
  have px: "lexer Plain (f x @ r) = map_option ((@) (g x)) (lexer Plain r)" for r
    by (rule piece) (simp add: xs)
  have "lexer Plain (joinWith sep (map f xs) @ rest)
      = lexer Plain (f x @ (concat (map (\<lambda>y. sep @ f y) ys) @ rest))"
    by (simp only: xs joinWith_map_Cons append_assoc)
  also have "\<dots> = map_option ((@) (g x))
      (map_option ((@) (concat (map (\<lambda>y. TComma # g y) ys))) (lexer Plain rest))"
    by (simp only: px t)
  also have "\<dots> = map_option ((@) (g x @ concat (map (\<lambda>y. [TComma] @ g y) ys))) (lexer Plain rest)"
    by (cases "lexer Plain rest") simp_all
  also have "\<dots> = map_option ((@) (joinWith [TComma] (map g xs))) (lexer Plain rest)"
    by (simp only: xs joinWith_map_Cons)
  finally show ?thesis .
qed

lemma lexer_separator:
  "list_all isWhitespace ind \<Longrightarrow>
     lexer Plain (('','' @ [CHR 0x0A] @ ind) @ r) = map_option (Cons TComma) (lexer Plain r)"
  using lexer_whitespace [of "CHR 0x0A # ind" r]
  by (simp add: isWhitespace_def punctuation_def)

lemma lexer_serialize:
  "list_all isWhitespace gap \<Longrightarrow> list_all isWhitespace indent \<Longrightarrow>
     lexer Plain (serialize gap indent v @ rest) = map_option ((@) (toks v)) (lexer Plain rest)"
proof (induction v arbitrary: indent rest)
  case (JString s)
  show ?case by (simp add: lexer_quoted)
next
  case (JArray vs)
  let ?ind = "indent @ gap"
  have wi: "list_all isWhitespace ?ind" using JArray.prems by simp
  show ?case
  proof (cases "vs = []")
    case True
    then show ?thesis
      by (simp add: isWhitespace_def punctuation_def option.map_comp comp_def)
  next
    case False
    have body: "lexer Plain (joinWith ('','' @ [CHR 0x0A] @ ?ind) (map (serialize gap ?ind) vs) @ r)
        = map_option ((@) (joinWith [TComma] (map toks vs))) (lexer Plain r)" for r
    proof (rule lexer_joined)
      show "lexer Plain (serialize gap ?ind x @ r') = map_option ((@) (toks x)) (lexer Plain r')"
        if "x \<in> set vs" for x r'
        using that JArray.prems(1) wi by (rule JArray.IH)
      show "lexer Plain (('','' @ [CHR 0x0A] @ ?ind) @ r') = map_option (Cons TComma) (lexer Plain r')" for r'
        using wi by (rule lexer_separator)
      show "vs \<noteq> []" by (fact False)
    qed
    have close: "lexer Plain ([CHR 0x0A] @ indent @ '']'' @ rest)
        = map_option (Cons TRBracket) (lexer Plain rest)"
      using lexer_whitespace [of "CHR 0x0A # indent" "'']'' @ rest"] JArray.prems(2)
      by (simp add: isWhitespace_def punctuation_def)
    have "lexer Plain (serialize gap indent (JArray vs) @ rest)
        = map_option (Cons TLBracket)
            (lexer Plain (([CHR 0x0A] @ ?ind) @
               (joinWith ('','' @ [CHR 0x0A] @ ?ind) (map (serialize gap ?ind) vs) @
                ([CHR 0x0A] @ indent @ '']'' @ rest))))"
      using False by (simp add: isWhitespace_def punctuation_def)
    also have "\<dots> = map_option (Cons TLBracket)
        (lexer Plain (joinWith ('','' @ [CHR 0x0A] @ ?ind) (map (serialize gap ?ind) vs) @
                ([CHR 0x0A] @ indent @ '']'' @ rest)))"
      using wi by (subst lexer_whitespace) (simp_all add: isWhitespace_def)
    also have "\<dots> = map_option (Cons TLBracket)
        (map_option ((@) (joinWith [TComma] (map toks vs)))
           (map_option (Cons TRBracket) (lexer Plain rest)))"
      by (simp only: body close)
    also have "\<dots> = map_option ((@) (toks (JArray vs))) (lexer Plain rest)"
      by (cases "lexer Plain rest") simp_all
    finally show ?thesis .
  qed
next
  case (JObject kvs)
  let ?ind = "indent @ gap"
  let ?f = "\<lambda>kv. quoteJSONString (fst kv) @ '': '' @ serialize gap ?ind (snd kv)"
  let ?g = "\<lambda>kv. TString (fst kv) # TColon # toks (snd kv)"
  have wi: "list_all isWhitespace ?ind" using JObject.prems by simp
  show ?case
  proof (cases "kvs = []")
    case True
    then show ?thesis
      by (simp add: isWhitespace_def punctuation_def option.map_comp comp_def)
  next
    case False
    have body: "lexer Plain (joinWith ('','' @ [CHR 0x0A] @ ?ind) (map ?f kvs) @ r)
        = map_option ((@) (joinWith [TComma] (map ?g kvs))) (lexer Plain r)" for r
    proof (rule lexer_joined)
      show "lexer Plain (?f kv @ r') = map_option ((@) (?g kv)) (lexer Plain r')"
        if "kv \<in> set kvs" for kv r'
      proof -
        have "snd kv \<in> Basic_BNFs.snds kv" by (cases kv) simp
        with that have ih: "lexer Plain (serialize gap ?ind (snd kv) @ r')
            = map_option ((@) (toks (snd kv))) (lexer Plain r')"
          using JObject.prems(1) wi by (intro JObject.IH)
        have "lexer Plain (?f kv @ r')
            = map_option (Cons (TString (fst kv)))
                (lexer Plain ('': '' @ serialize gap ?ind (snd kv) @ r'))"
          using lexer_quoted [of "fst kv" "'': '' @ serialize gap ?ind (snd kv) @ r'"] by simp
        also have "\<dots> = map_option (Cons (TString (fst kv)))
            (map_option (Cons TColon) (lexer Plain (serialize gap ?ind (snd kv) @ r')))"
          by (simp add: isWhitespace_def punctuation_def)
        also have "\<dots> = map_option ((@) (?g kv)) (lexer Plain r')"
          by (cases "lexer Plain r'") (simp_all add: ih)
        finally show ?thesis .
      qed
      show "lexer Plain (('','' @ [CHR 0x0A] @ ?ind) @ r') = map_option (Cons TComma) (lexer Plain r')" for r'
        using wi by (rule lexer_separator)
      show "kvs \<noteq> []" by (fact False)
    qed
    have close: "lexer Plain ([CHR 0x0A] @ indent @ ''}'' @ rest)
        = map_option (Cons TRBrace) (lexer Plain rest)"
      using lexer_whitespace [of "CHR 0x0A # indent" "''}'' @ rest"] JObject.prems(2)
      by (simp add: isWhitespace_def punctuation_def)
    have "lexer Plain (serialize gap indent (JObject kvs) @ rest)
        = map_option (Cons TLBrace)
            (lexer Plain (([CHR 0x0A] @ ?ind) @
               (joinWith ('','' @ [CHR 0x0A] @ ?ind) (map ?f kvs) @
                ([CHR 0x0A] @ indent @ ''}'' @ rest))))"
      using False by (simp add: isWhitespace_def punctuation_def)
    also have "\<dots> = map_option (Cons TLBrace)
        (lexer Plain (joinWith ('','' @ [CHR 0x0A] @ ?ind) (map ?f kvs) @
                ([CHR 0x0A] @ indent @ ''}'' @ rest)))"
      using wi by (subst lexer_whitespace) (simp_all add: isWhitespace_def)
    also have "\<dots> = map_option (Cons TLBrace)
        (map_option ((@) (joinWith [TComma] (map ?g kvs)))
           (map_option (Cons TRBrace) (lexer Plain rest)))"
      by (simp only: body close)
    also have "\<dots> = map_option ((@) (toks (JObject kvs))) (lexer Plain rest)"
      by (cases "lexer Plain rest") simp_all
    finally show ?thesis .
  qed
qed

lemma toks_head: "\<exists>t ts. toks v = t # ts \<and> t \<noteq> TRBracket \<and> t \<noteq> TRBrace"
  by (cases v) simp_all

lemma toks_length: "0 < length (toks v)"
  using toks_head [of v] by auto

lemma parse_value_open_bracket:
  "t \<noteq> TRBracket \<Longrightarrow>
     parse_value (Suc n) (TLBracket # t # ts) =
       (case parse_value n (t # ts) of
          None \<Rightarrow> None
        | Some (v, r') \<Rightarrow>
            (case parse_elements n [v] r' of
               None \<Rightarrow> None
             | Some (vs, r'') \<Rightarrow> Some (JArray vs, r'')))"
  by (cases t) simp_all

lemma update_fresh: "k \<notin> fst ` set acc \<Longrightarrow> AList.update k v acc = acc @ [(k, v)]"
  by (induction acc) auto

lemma parse_elements_tail:
  assumes each: "\<And>v n r. v \<in> set xs \<Longrightarrow> length (toks v) \<le> n \<Longrightarrow>
      parse_value n (toks v @ r) = Some (v, r)"
  shows "length (concat (map (\<lambda>v. TComma # toks v) xs)) < n \<Longrightarrow>
     parse_elements n acc (concat (map (\<lambda>v. TComma # toks v) xs) @ TRBracket # rest)
       = Some (acc @ xs, rest)"
  using each
proof (induction xs arbitrary: acc n)
  case Nil
  then obtain m where "n = Suc m" by (cases n) auto
  then show ?case by simp
next
  case (Cons x xs)
  from Cons.prems(1) obtain m where n: "n = Suc m" by (cases n) auto
  let ?tail = "concat (map (\<lambda>v. TComma # toks v) xs)"
  from Cons.prems(1) n have len: "length (toks x) + length ?tail < m" by simp
  have px: "parse_value m (toks x @ (?tail @ TRBracket # rest)) = Some (x, ?tail @ TRBracket # rest)"
    by (rule Cons.prems(2)) (use len in simp_all)
  have "length ?tail < m" using len by simp
  then have pt: "parse_elements m (acc @ [x]) (?tail @ TRBracket # rest) = Some ((acc @ [x]) @ xs, rest)"
    by (rule Cons.IH) (simp add: Cons.prems(2))
  have "parse_elements n acc (concat (map (\<lambda>v. TComma # toks v) (x # xs)) @ TRBracket # rest)
      = parse_elements (Suc m) acc (TComma # (toks x @ (?tail @ TRBracket # rest)))"
    by (simp add: n)
  also have "\<dots> = parse_elements m (acc @ [x]) (?tail @ TRBracket # rest)"
    by (simp add: px)
  finally show ?case by (simp add: pt)
qed

lemma parse_members_tail:
  assumes each: "\<And>kv n r. kv \<in> set kvs \<Longrightarrow> length (toks (snd kv)) \<le> n \<Longrightarrow>
      parse_value n (toks (snd kv) @ r) = Some (snd kv, r)"
  shows "length (concat (map (\<lambda>kv. TComma # TString (fst kv) # TColon # toks (snd kv)) kvs)) < n \<Longrightarrow>
     distinct (map fst (acc @ kvs)) \<Longrightarrow>
     parse_members n acc
       (concat (map (\<lambda>kv. TComma # TString (fst kv) # TColon # toks (snd kv)) kvs) @ TRBrace # rest)
       = Some (acc @ kvs, rest)"
  using each
proof (induction kvs arbitrary: acc n)
  case Nil
  then obtain m where "n = Suc m" by (cases n) auto
  then show ?case by simp
next
  case (Cons kv kvs)
  from Cons.prems(1) obtain m where n: "n = Suc m" by (cases n) auto
  let ?piece = "\<lambda>kv. TComma # TString (fst kv) # TColon # toks (snd kv)"
  let ?tail = "concat (map ?piece kvs)"
  from Cons.prems(1) n have len: "length (toks (snd kv)) + length ?tail + 2 < m" by simp
  have px: "parse_value m (toks (snd kv) @ (?tail @ TRBrace # rest))
      = Some (snd kv, ?tail @ TRBrace # rest)"
    by (rule Cons.prems(3)) (use len in simp_all)
  have fresh: "fst kv \<notin> fst ` set acc" using Cons.prems(2) by auto
  then have up: "AList.update (fst kv) (snd kv) acc = acc @ [kv]"
    by (simp add: update_fresh)
  have "length ?tail < m" using len by simp
  moreover have "distinct (map fst ((acc @ [kv]) @ kvs))" using Cons.prems(2) by simp
  ultimately have pt: "parse_members m (acc @ [kv]) (?tail @ TRBrace # rest)
      = Some ((acc @ [kv]) @ kvs, rest)"
    by (rule Cons.IH) (simp add: Cons.prems(3))
  have "parse_members n acc (concat (map ?piece (kv # kvs)) @ TRBrace # rest)
      = parse_members (Suc m) acc
          (TComma # TString (fst kv) # TColon # (toks (snd kv) @ (?tail @ TRBrace # rest)))"
    by (simp add: n)
  also have "\<dots> = parse_members m (acc @ [kv]) (?tail @ TRBrace # rest)"
    by (simp add: px up)
  finally show ?case by (simp add: pt)
qed

lemma parse_value_toks:
  "wf_json v \<Longrightarrow> length (toks v) \<le> n \<Longrightarrow> parse_value n (toks v @ rest) = Some (v, rest)"
proof (induction v arbitrary: n rest)
  case (JString s)
  then obtain m where "n = Suc m" by (cases n) auto
  then show ?case by simp
next
  case (JArray vs)
  from JArray.prems(2) obtain m where n: "n = Suc m" by (cases n) auto
  show ?case
  proof (cases vs)
    case Nil
    then show ?thesis by (simp add: n)
  next
    case (Cons x xs)
    let ?tail = "concat (map (\<lambda>v. TComma # toks v) xs)"
    have tk: "toks (JArray vs) = TLBracket # toks x @ ?tail @ [TRBracket]"
      by (simp add: Cons joinWith_Cons comp_def)
    have len: "length (toks x) + length ?tail + 1 \<le> m"
      using JArray.prems(2) unfolding tk n by simp
    have wf: "wf_json v" if "v \<in> set vs" for v
      using JArray.prems(1) that by (simp add: list_all_iff)
    have each: "parse_value k (toks v @ r) = Some (v, r)"
      if "v \<in> set vs" "length (toks v) \<le> k" for v k r
      using that(1) wf [OF that(1)] that(2) by (rule JArray.IH)
    obtain t ts where hd: "toks x = t # ts" "t \<noteq> TRBracket"
      using toks_head [of x] by blast
    have px: "parse_value m (toks x @ (?tail @ TRBracket # rest)) = Some (x, ?tail @ TRBracket # rest)"
      by (rule each) (use len Cons in simp_all)
    have pt: "parse_elements m [x] (?tail @ TRBracket # rest) = Some ([x] @ xs, rest)"
      by (rule parse_elements_tail) (use len Cons each in simp_all)
    have eq: "toks (JArray vs) @ rest = TLBracket # t # (ts @ ?tail @ TRBracket # rest)"
      unfolding tk hd by simp
    have eq': "t # (ts @ ?tail @ TRBracket # rest) = toks x @ (?tail @ TRBracket # rest)"
      by (simp add: hd)
    have "parse_value n (toks (JArray vs) @ rest)
        = parse_value (Suc m) (TLBracket # t # (ts @ ?tail @ TRBracket # rest))"
      by (simp only: eq n)
    also have "\<dots> = (case parse_value m (t # (ts @ ?tail @ TRBracket # rest)) of
          None \<Rightarrow> None
        | Some (v, r') \<Rightarrow>
            (case parse_elements m [v] r' of
               None \<Rightarrow> None
             | Some (vs, r'') \<Rightarrow> Some (JArray vs, r'')))"
      using hd(2) by (rule parse_value_open_bracket)
    also have "\<dots> = Some (JArray vs, rest)"
      by (simp only: eq' px) (simp add: pt Cons)
    finally show ?thesis .
  qed
next
  case (JObject kvs)
  from JObject.prems(2) obtain m where n: "n = Suc m" by (cases n) auto
  show ?case
  proof (cases kvs)
    case Nil
    then show ?thesis by (simp add: n)
  next
    case (Cons kv rest_kvs)
    let ?piece = "\<lambda>kv. TComma # TString (fst kv) # TColon # toks (snd kv)"
    let ?tail = "concat (map ?piece rest_kvs)"
    have tk: "toks (JObject kvs)
        = TLBrace # TString (fst kv) # TColon # toks (snd kv) @ ?tail @ [TRBrace]"
      by (simp add: Cons joinWith_Cons comp_def)
    have len: "length (toks (snd kv)) + length ?tail + 3 \<le> m"
      using JObject.prems(2) unfolding tk n by simp
    have wf: "wf_json (snd p)" if "p \<in> set kvs" for p
      using JObject.prems(1) that by (simp add: list_all_iff)
    have each: "parse_value k (toks (snd p) @ r) = Some (snd p, r)"
      if "p \<in> set kvs" "length (toks (snd p)) \<le> k" for p k r
    proof (rule JObject.IH)
      show "p \<in> set kvs" by (fact that(1))
      show "snd p \<in> Basic_BNFs.snds p" by (cases p) simp
      show "wf_json (snd p)" using that(1) by (rule wf)
      show "length (toks (snd p)) \<le> k" by (fact that(2))
    qed
    have dist: "distinct (map fst ([kv] @ rest_kvs))"
      using JObject.prems(1) by (simp add: Cons)
    have px: "parse_value m (toks (snd kv) @ (?tail @ TRBrace # rest))
        = Some (snd kv, ?tail @ TRBrace # rest)"
      by (rule each) (use len Cons in simp_all)
    have pt: "parse_members m [kv] (?tail @ TRBrace # rest) = Some ([kv] @ rest_kvs, rest)"
      by (rule parse_members_tail) (use len Cons each dist in simp_all)
    have eq: "toks (JObject kvs) @ rest
        = TLBrace # TString (fst kv) # TColon # (toks (snd kv) @ (?tail @ TRBrace # rest))"
      unfolding tk by simp
    have "parse_value n (toks (JObject kvs) @ rest)
        = parse_value (Suc m)
            (TLBrace # TString (fst kv) # TColon # (toks (snd kv) @ (?tail @ TRBrace # rest)))"
      by (simp only: eq n)
    also have "\<dots> = Some (JObject kvs, rest)"
      by (simp add: px pt Cons)
    finally show ?thesis .
  qed
qed

lemma JSON_parse_stringify: "wf_json v \<Longrightarrow> JSON_parse (JSON_stringify v n) = Some v"
proof -
  assume wf: "wf_json v"
  let ?gap = "replicate (min 10 n) CHR '' ''"
  have "list_all isWhitespace ?gap"
    by (simp add: list_all_iff isWhitespace_def)
  then have "lexer Plain (serialize ?gap [] v @ []) = map_option ((@) (toks v)) (lexer Plain [])"
    by (rule lexer_serialize) simp
  then have lx: "lexer Plain (JSON_stringify v n) = Some (toks v)"
    by (simp add: JSON_stringify_def)
  have "parse_value (length (toks v)) (toks v @ []) = Some (v, [])"
    using wf by (rule parse_value_toks) simp
  then show ?thesis
    by (simp add: JSON_parse_def lx)
qed

lemma wf_checklistJSON: "distinct (map fst (sections c)) \<Longrightarrow> wf_json (checklistJSON c)"
  by (simp add: checklistJSON_def list_all_iff comp_def)

lemma checklistJSON_inj: "checklistJSON c' = checklistJSON c \<Longrightarrow> c' = c"
proof -
  assume e: "checklistJSON c' = checklistJSON c"
  have inj: "inj (\<lambda>kv :: string \<times> string list. (fst kv, JArray (map JString (snd kv))))"
    by (auto simp: inj_on_def prod_eq_iff)
  from e have "sections c' = sections c"
    using inj by (simp add: checklistJSON_def inj_map_eq_map)
  with e show ?thesis
    by (cases c; cases c') (simp add: checklistJSON_def)
qed

text \<open>
  C6: with no checklist selected the copy action writes nothing. With a checklist selected
  it writes one text, the serialization of the whole record with a gap of two spaces;
  parsing that text gives back the record's structure (the section map holding no key
  twice, as an object does), and that structure determines the record. The written text
  is the same whatever the search string and the viewer's checked state are.
\<close>

theorem copy_roundtrip:
  "(selectedChecklist s = None \<longrightarrow> clipboard_writes (handleCopyJSON s) = []) \<and>
   (selectedChecklist s = Some c \<longrightarrow>
      clipboard_writes (handleCopyJSON s) = [JSON_stringify (checklistJSON c) 2] \<and>
      (distinct (map fst (sections c)) \<longrightarrow>
         JSON_parse (JSON_stringify (checklistJSON c) 2) = Some (checklistJSON c))) \<and>
   (checklistJSON c' = checklistJSON c \<longrightarrow> c' = c) \<and>
   clipboard_writes (handleCopyJSON (index (app\<lparr>index := (index app)\<lparr>searchQuery := q\<rparr>, viewer := w\<rparr>)))
     = clipboard_writes (handleCopyJSON (index app))"
proof (intro conjI impI)
  show "clipboard_writes (handleCopyJSON s) = []" if "selectedChecklist s = None"
    using that by (simp add: handleCopyJSON_def)
  show "clipboard_writes (handleCopyJSON s) = [JSON_stringify (checklistJSON c) 2]"
    if "selectedChecklist s = Some c"
    using that by (simp add: handleCopyJSON_def)
  show "JSON_parse (JSON_stringify (checklistJSON c) 2) = Some (checklistJSON c)"
    if "distinct (map fst (sections c))"
    using that by (intro JSON_parse_stringify wf_checklistJSON)
  show "c' = c" if "checklistJSON c' = checklistJSON c"
    using that by (rule checklistJSON_inj)
  show "clipboard_writes (handleCopyJSON (index (app\<lparr>index := (index app)\<lparr>searchQuery := q\<rparr>, viewer := w\<rparr>)))
     = clipboard_writes (handleCopyJSON (index app))"
    by (simp add: handleCopyJSON_def split: option.splits)
qed

theorem copy_roundtrip_witness:
  "clipboard_writes (handleCopyJSON initialIndex) = [] \<and>
   selectedChecklist (index shownA) = Some checklistA \<and>
   distinct (map fst (sections checklistA)) \<and>
   clipboard_writes (handleCopyJSON (index shownA)) = [JSON_stringify (checklistJSON checklistA) 2] \<and>
   JSON_parse (JSON_stringify (checklistJSON checklistA) 2) = Some (checklistJSON checklistA)"
proof -
  have a: "selectedChecklist initialIndex = None" by (simp add: initialIndex_def)
  have b: "selectedChecklist (index shownA) = Some checklistA" by (simp add: shownA_def)
  have d: "distinct (map fst (sections checklistA))" by (simp add: checklistA_def)
  note t1 = copy_roundtrip [where s = initialIndex and c = checklistA and c' = checklistA and app = shownA
          and q = "[]" and w = None]
  note t2 = copy_roundtrip [where s = "index shownA" and c = checklistA and c' = checklistA and app = shownA
          and q = "[]" and w = None]
  from t1 a have r1: "clipboard_writes (handleCopyJSON initialIndex) = []" by blast
  from t2 b have r2: "clipboard_writes (handleCopyJSON (index shownA))
      = [JSON_stringify (checklistJSON checklistA) 2]" by blast
  from t2 b d have r3: "JSON_parse (JSON_stringify (checklistJSON checklistA) 2)
      = Some (checklistJSON checklistA)" by blast
  from r1 b d r2 r3 show ?thesis by (intro conjI)
qed

end
